theory Spec2Isabelle
  imports Complex_Main "HOL-Library.Multiset"
begin

section \<open>pkg/models: errors, statuses and the data structures\<close>

text \<open>
  Go's \<open>error\<close> values that occur in the program: the two sentinel errors of package
  \<open>context\<close> and the errors built by \<open>fmt.Errorf\<close>. The test
  \<open>err == context.DeadlineExceeded\<close> of the source is equality with the sentinel.
\<close>

datatype GoError = DeadlineExceeded | Canceled | Errorf string

record ServiceError =
  ServiceKey :: string
  Message :: string
  Timeout :: bool
  Err :: GoError

text \<open>
  \<open>type Status string\<close>: a status is a string, and the zero value of a status field is
  the empty string.
\<close>

type_synonym Status = string

definition StatusSuccess :: Status where "StatusSuccess = ''SUCCESS''"
definition StatusTimeout :: Status where "StatusTimeout = ''TIMEOUT''"
definition StatusError :: Status where "StatusError = ''ERROR''"
definition StatusFallback :: Status where "StatusFallback = ''FALLBACK''"

text \<open>
  \<open>float64\<close> values are only stored and copied by the program, never computed with:
  a \<open>float64\<close> is modelled by the real number its literal denotes. \<open>int\<close> and
  \<open>int64\<close> fields are likewise only assigned, and are integers.
\<close>

record CartSummary =
  ProductID :: string
  Price :: real
  PriceStatus :: Status
  Stock :: int
  StockStatus :: Status
  Promotion :: string
  PromotionStatus :: Status
  TotalTimeMs :: int
  ServiceErrors :: "ServiceError list"

text \<open>The dynamic values an \<open>interface{}\<close> holds in this program.\<close>

datatype GoValue = VNil | VFloat64 real | VInt int | VString string

record FetchResult =
  Key :: string
  Value :: GoValue
  Status :: Status
  Error :: "ServiceError option"

section \<open>Time, contexts and what the runtime decides\<close>

text \<open>
  A \<open>time.Duration\<close> counts nanoseconds. Instants are durations elapsed since the
  context of the round was created.
\<close>

type_synonym Duration = int

definition Millisecond :: Duration where "Millisecond = 1000000"

text \<open>
  The context made by \<open>context.WithTimeout(context.Background(), d)\<close>: its \<open>Done\<close>
  channel is closed at the instant \<open>deadline\<close>. The \<open>cancel\<close> function is deferred to
  the return of \<open>FanOutAndAggregate\<close>, so the only reason a worker sees \<open>Done\<close> closed
  is the deadline, and \<open>ctx.Err()\<close> is then \<open>context.DeadlineExceeded\<close>. (When the
  loop panics, the deferred \<open>cancel\<close> runs while workers may still wait, and they would
  see \<open>context.Canceled\<close>; the model keeps the results they would have had, and nothing
  below is stated about the results produced after a panic.)
\<close>

record Context =
  deadline :: Duration

definition context_WithTimeout :: "Duration \<Rightarrow> Context" where
  "context_WithTimeout d = \<lparr>deadline = d\<rparr>"

definition ctx_Err :: "Context \<Rightarrow> GoError" where
  "ctx_Err ctx = DeadlineExceeded"

text \<open>
  What the Go runtime decides for one backend call: the instant at which the call
  starts, and which case a \<open>select\<close> takes when both of its cases are ready at once.
\<close>

record CallEnv =
  started :: Duration
  pickTimer :: bool

type_synonym ServiceFn = "CallEnv \<Rightarrow> Context \<Rightarrow> string \<Rightarrow> GoValue \<times> GoError option"

section \<open>pkg/services: the simulated backends\<close>

text \<open>
  The \<open>select\<close> of \<open>simulatedCall\<close> waits for \<open>time.After(delay)\<close> and for
  \<open>ctx.Done()\<close>. The timer fires \<open>delay\<close> after the call starts (at once for a
  delay that is not positive); \<open>Done\<close> is ready from the deadline on. The \<open>select\<close>
  proceeds at the first instant at which a case is ready, with that case; when both
  become ready at the same instant the runtime picks.
\<close>

datatype SelectCase = TimerFired | ContextDone

definition timerAt :: "CallEnv \<Rightarrow> Duration \<Rightarrow> Duration" where
  "timerAt env delay = started env + max 0 delay"

definition doneAt :: "CallEnv \<Rightarrow> Context \<Rightarrow> Duration" where
  "doneAt env ctx = max (started env) (deadline ctx)"

definition selectCase :: "CallEnv \<Rightarrow> Context \<Rightarrow> Duration \<Rightarrow> SelectCase" where
  "selectCase env ctx delay =
     (if timerAt env delay < doneAt env ctx then TimerFired
      else if doneAt env ctx < timerAt env delay then ContextDone
      else if pickTimer env then TimerFired else ContextDone)"

definition simulatedCall ::
  "CallEnv \<Rightarrow> Context \<Rightarrow> Duration \<Rightarrow> string \<Rightarrow> bool \<Rightarrow> GoValue \<Rightarrow> GoValue \<times> GoError option" where
  "simulatedCall env ctx delay productID fail v =
     (case selectCase env ctx delay of
        TimerFired \<Rightarrow>
          if fail then (VNil, Some (Errorf ''backend server responded with 503''))
          else (v, None)
      | ContextDone \<Rightarrow> (VNil, Some (ctx_Err ctx)))"

text \<open>
  The instant at which the call returns. The only branch that returns the context's
  error is the \<open>Done\<close> case, which proceeds when \<open>Done\<close> is ready; any other result
  comes from the timer case, which proceeds when the timer fires.
\<close>

definition simulatedCallAt ::
  "CallEnv \<Rightarrow> Context \<Rightarrow> Duration \<Rightarrow> string \<Rightarrow> bool \<Rightarrow> GoValue \<Rightarrow> Duration" where
  "simulatedCallAt env ctx delay productID fail v =
     (if snd (simulatedCall env ctx delay productID fail v) = Some (ctx_Err ctx)
      then doneAt env ctx
      else timerAt env delay)"

definition FetchPriceSimulates :: ServiceFn where
  "FetchPriceSimulates env ctx productID =
     (let delay = (if productID = ''TEST-SKU-TIMEOUT'' then 500 * Millisecond
                   else 200 * Millisecond)
      in simulatedCall env ctx delay productID False (VFloat64 (4999 / 100)))"

definition FetchInventorySimulates :: ServiceFn where
  "FetchInventorySimulates env ctx productID =
     simulatedCall env ctx (400 * Millisecond) productID False (VInt 120)"

definition FetchPromotionsSimulates :: ServiceFn where
  "FetchPromotionsSimulates env ctx productID =
     simulatedCall env ctx (50 * Millisecond) productID False (VString ''Buy 1 Get 1 Half Off!'')"

text \<open>
  The registry is a Go map from key to backend: an association list, in some iteration
  order, whose keys are distinct.
\<close>

type_synonym Registry = "(string \<times> ServiceFn) list"

definition ServiceMap :: Registry where
  "ServiceMap =
     [(''price'', FetchPriceSimulates),
      (''stock'', FetchInventorySimulates),
      (''promotion'', FetchPromotionsSimulates)]"

text \<open>
  A simulated backend is \<open>simulatedCall\<close> with a configured delay (which may depend on
  the product id, as the price backend's does), failure flag and value. \<open>simFn\<close> is the
  backend function of a configuration, \<open>simAt\<close> the instant at which its call returns,
  and \<open>registryOf\<close> the registry of a list of configured backends. The shipped
  registry is the registry of \<open>shippedBackends\<close>.
\<close>

record SimBackend =
  simDelay :: "string \<Rightarrow> Duration"
  simFail :: bool
  simValue :: GoValue

definition simFn :: "SimBackend \<Rightarrow> ServiceFn" where
  "simFn b env ctx productID =
     simulatedCall env ctx (simDelay b productID) productID (simFail b) (simValue b)"

definition simAt :: "SimBackend \<Rightarrow> CallEnv \<Rightarrow> Context \<Rightarrow> string \<Rightarrow> Duration" where
  "simAt b env ctx productID =
     simulatedCallAt env ctx (simDelay b productID) productID (simFail b) (simValue b)"

type_synonym SimRegistry = "(string \<times> SimBackend) list"

definition registryOf :: "SimRegistry \<Rightarrow> Registry" where
  "registryOf sreg = map (\<lambda>(key, b). (key, simFn b)) sreg"

definition shippedBackends :: SimRegistry where
  "shippedBackends =
     [(''price'',
       \<lparr>simDelay = (\<lambda>productID. if productID = ''TEST-SKU-TIMEOUT'' then 500 * Millisecond
                                 else 200 * Millisecond),
        simFail = False, simValue = VFloat64 (4999 / 100)\<rparr>),
      (''stock'',
       \<lparr>simDelay = (\<lambda>productID. 400 * Millisecond), simFail = False, simValue = VInt 120\<rparr>),
      (''promotion'',
       \<lparr>simDelay = (\<lambda>productID. 50 * Millisecond), simFail = False,
        simValue = VString ''Buy 1 Get 1 Half Off!''\<rparr>)]"

section \<open>pkg/aggregator: the worker\<close>

definition aggregationTimeout :: Duration where
  "aggregationTimeout = 450 * Millisecond"

text \<open>
  \<open>executeService\<close> calls the backend and builds the one \<open>FetchResult\<close> it sends on the
  channel. The send itself and the deferred \<open>wg.Done()\<close> are steps of the round below.
\<close>

definition executeService ::
  "CallEnv \<Rightarrow> Context \<Rightarrow> string \<Rightarrow> string \<Rightarrow> ServiceFn \<Rightarrow> FetchResult" where
  "executeService env ctx key productID fn =
     (let (v, err) = fn env ctx productID;
          result = \<lparr>Key = key, Value = v, Status = [], Error = None\<rparr>
      in case err of
           Some e \<Rightarrow>
             (let serviceErr = \<lparr>ServiceKey = key, Message = ''External service call failed'',
                                Timeout = False, Err = e\<rparr>
              in if e = DeadlineExceeded
                 then result\<lparr>Status := StatusTimeout,
                        Error := Some (serviceErr\<lparr>Timeout := True,
                          Message := ''Service execution exceeded the global aggregation timeout''\<rparr>)\<rparr>
                 else result\<lparr>Status := StatusError, Error := Some serviceErr\<rparr>)
         | None \<Rightarrow> result\<lparr>Status := StatusSuccess\<rparr>)"

section \<open>pkg/aggregator: the body of the fan-in loop\<close>

definition fallbackPrice :: real where "fallbackPrice = 0"
definition fallbackStock :: int where "fallbackStock = 0"
definition fallbackPromotion :: string where "fallbackPromotion = ''No promotions available''"

text \<open>An unchecked type assertion on a value of another dynamic type panics.\<close>

datatype Panic = InterfaceConversion string

text \<open>
  One iteration of \<open>for res := range resultChan\<close>, on the summary and the slice
  \<open>serviceErrors\<close>.
\<close>

definition fanIn ::
  "FetchResult \<Rightarrow> CartSummary \<times> ServiceError list \<Rightarrow> Panic + CartSummary \<times> ServiceError list" where
  "fanIn res acc =
     (let (summary, serviceErrors) = acc;
          serviceErrors = (case Error res of
                             Some e \<Rightarrow> serviceErrors @ [e]
                           | None \<Rightarrow> serviceErrors)
      in if Key res = ''price'' then
           (if Status res = StatusSuccess then
              (case Value res of
                 VFloat64 x \<Rightarrow> Inr (summary\<lparr>Price := x, PriceStatus := StatusSuccess\<rparr>, serviceErrors)
               | _ \<Rightarrow> Inl (InterfaceConversion ''float64''))
            else Inr (summary\<lparr>Price := fallbackPrice, PriceStatus := StatusFallback\<rparr>, serviceErrors))
         else if Key res = ''stock'' then
           (if Status res = StatusSuccess then
              (case Value res of
                 VInt n \<Rightarrow> Inr (summary\<lparr>Stock := n, StockStatus := StatusSuccess\<rparr>, serviceErrors)
               | _ \<Rightarrow> Inl (InterfaceConversion ''int''))
            else Inr (summary\<lparr>Stock := fallbackStock, StockStatus := StatusFallback\<rparr>, serviceErrors))
         else if Key res = ''promotion'' then
           (if Status res = StatusSuccess then
              (case Value res of
                 VString t \<Rightarrow> Inr (summary\<lparr>Promotion := t, PromotionStatus := StatusSuccess\<rparr>, serviceErrors)
               | _ \<Rightarrow> Inl (InterfaceConversion ''string''))
            else Inr (summary\<lparr>Promotion := fallbackPromotion, PromotionStatus := StatusFallback\<rparr>,
                      serviceErrors))
         else Inr (summary, serviceErrors))"

text \<open>The loop over a sequence of outcomes; a panic ends it.\<close>

fun fanInAll ::
  "FetchResult list \<Rightarrow> CartSummary \<times> ServiceError list \<Rightarrow> Panic + CartSummary \<times> ServiceError list" where
  "fanInAll [] acc = Inr acc"
| "fanInAll (res # rest) acc =
     (case fanIn res acc of Inl p \<Rightarrow> Inl p | Inr acc' \<Rightarrow> fanInAll rest acc')"

section \<open>pkg/aggregator: one round of FanOutAndAggregate as interleaved steps\<close>

text \<open>
  The goroutines of a round: one worker per registry entry (entry \<open>i\<close> of the list), the
  join goroutine, and the calling goroutine that drains the channel. A worker is
  \<open>Running\<close> until it has sent its result, \<open>Sent\<close> until its deferred \<open>wg.Done()\<close> has
  run, then \<open>Finished\<close>.
\<close>

datatype Phase = Running | Sent | Finished

datatype MainPhase = Draining | Returned | Panicked

record State =
  workers :: "Phase list"
  resultChan :: "FetchResult list"
  chanClosed :: bool
  wg :: int
  mainPhase :: MainPhase
  summary :: CartSummary
  serviceErrors :: "ServiceError list"
  received :: "FetchResult list"

text \<open>
  The state once the fan-out loop has launched every worker: \<open>wg.Add(numWorkers)\<close> has
  run, the buffered channel is empty, and the summary holds the product id and zero
  values. \<open>received\<close> is the history of the results the loop has taken from the channel.
\<close>

definition initSummary :: "string \<Rightarrow> CartSummary" where
  "initSummary productID =
     \<lparr>ProductID = productID, Price = 0, PriceStatus = [], Stock = 0, StockStatus = [],
      Promotion = [], PromotionStatus = [], TotalTimeMs = 0, ServiceErrors = []\<rparr>"

definition initState :: "Registry \<Rightarrow> string \<Rightarrow> State" where
  "initState reg productID =
     \<lparr>workers = replicate (length reg) Running, resultChan = [], chanClosed = False,
      wg = int (length reg), mainPhase = Draining, summary = initSummary productID,
      serviceErrors = [], received = []\<rparr>"

text \<open>The result worker \<open>i\<close> sends; \<open>env\<close> gives the runtime's decisions for each key.\<close>

definition workerResult :: "Registry \<Rightarrow> (string \<Rightarrow> CallEnv) \<Rightarrow> string \<Rightarrow> nat \<Rightarrow> FetchResult" where
  "workerResult reg env productID i =
     executeService (env (fst (reg ! i))) (context_WithTimeout aggregationTimeout)
       (fst (reg ! i)) productID (snd (reg ! i))"

datatype Event = WorkerSend nat | WorkerDone nat | JoinClose | MainRecv | MainReturn

text \<open>
  One step of one goroutine, \<open>None\<close> when that goroutine cannot move:
  a send needs room in the buffer of \<open>numWorkers\<close> slots, \<open>wg.Wait()\<close> returns when the
  counter is zero, a receive needs a buffered result, and the \<open>range\<close> loop ends when the
  channel is closed and empty.
\<close>

fun step :: "Registry \<Rightarrow> (string \<Rightarrow> CallEnv) \<Rightarrow> string \<Rightarrow> State \<Rightarrow> Event \<Rightarrow> State option" where
  "step reg env productID s (WorkerSend i) =
     (if i < length (workers s) \<and> workers s ! i = Running
         \<and> length (resultChan s) < length reg
      then Some (s\<lparr>workers := (workers s)[i := Sent],
                   resultChan := resultChan s @ [workerResult reg env productID i]\<rparr>)
      else None)"
| "step reg env productID s (WorkerDone i) =
     (if i < length (workers s) \<and> workers s ! i = Sent
      then Some (s\<lparr>workers := (workers s)[i := Finished], wg := wg s - 1\<rparr>)
      else None)"
| "step reg env productID s JoinClose =
     (if wg s = 0 \<and> \<not> chanClosed s then Some (s\<lparr>chanClosed := True\<rparr>) else None)"
| "step reg env productID s MainRecv =
     (if mainPhase s = Draining then
        (case resultChan s of
           [] \<Rightarrow> None
         | res # rest \<Rightarrow>
             (case fanIn res (summary s, serviceErrors s) of
                Inl p \<Rightarrow> Some (s\<lparr>resultChan := rest, received := received s @ [res],
                                 mainPhase := Panicked\<rparr>)
              | Inr (sm, errs) \<Rightarrow>
                  Some (s\<lparr>resultChan := rest, received := received s @ [res],
                          summary := sm, serviceErrors := errs\<rparr>)))
      else None)"
| "step reg env productID s MainReturn =
     (if mainPhase s = Draining \<and> resultChan s = [] \<and> chanClosed s
      then Some (s\<lparr>summary := (summary s)\<lparr>ServiceErrors := serviceErrors s\<rparr>,
                   mainPhase := Returned\<rparr>)
      else None)"

fun run :: "Registry \<Rightarrow> (string \<Rightarrow> CallEnv) \<Rightarrow> string \<Rightarrow> State \<Rightarrow> Event list \<Rightarrow> State option" where
  "run reg env productID s [] = Some s"
| "run reg env productID s (e # es) =
     (case step reg env productID s e of
        None \<Rightarrow> None
      | Some s' \<Rightarrow> run reg env productID s' es)"

text \<open>
  What a call of \<open>FanOutAndAggregate\<close> yields under a schedule of the goroutines' steps:
  the pair \<open>summary, nil\<close> of its only \<open>return\<close>, a panic, or nothing yet.
\<close>

datatype Outcome = Returns CartSummary "GoError option" | Panics | Pending

definition FanOutAndAggregate ::
  "Registry \<Rightarrow> (string \<Rightarrow> CallEnv) \<Rightarrow> string \<Rightarrow> Event list \<Rightarrow> Outcome" where
  "FanOutAndAggregate reg env productID es =
     (case run reg env productID (initState reg productID) es of
        None \<Rightarrow> Pending
      | Some s \<Rightarrow>
          (case mainPhase s of
             Draining \<Rightarrow> Pending
           | Panicked \<Rightarrow> Panics
           | Returned \<Rightarrow> Returns (summary s) None))"

section \<open>pkg/aggregator: the clocks of a round\<close>

text \<open>
  A round of simulated backends with time. Worker \<open>i\<close> sends, and calls
  \<open>wg.Done()\<close>, at the instant its backend call returns. Channel and wait-group
  operations take no time of their own; a goroutine's clock advances only by waiting:
  \<open>wg.Wait()\<close> returns at the latest \<open>Done\<close> (clock \<open>joinAt\<close>), the channel is closed
  then (\<open>closedAt\<close>), and the calling goroutine (\<open>mainAt\<close>, starting at 0 when the
  context is created) receives a result no earlier than it was sent (\<open>sentAt\<close>, the
  send instants of the buffered results) and leaves the loop no earlier than the
  channel was closed. \<open>mainAt\<close> of a returned round is its elapsed time. \<open>runAt\<close> is
  \<open>run\<close> with these clocks.
\<close>

definition returnedAt :: "SimRegistry \<Rightarrow> (string \<Rightarrow> CallEnv) \<Rightarrow> string \<Rightarrow> nat \<Rightarrow> Duration" where
  "returnedAt sreg env productID i =
     simAt (snd (sreg ! i)) (env (fst (sreg ! i))) (context_WithTimeout aggregationTimeout)
       productID"

record Clocks =
  sentAt :: "Duration list"
  joinAt :: Duration
  closedAt :: Duration
  mainAt :: Duration

definition initClocks :: Clocks where
  "initClocks = \<lparr>sentAt = [], joinAt = 0, closedAt = 0, mainAt = 0\<rparr>"

fun tick :: "(nat \<Rightarrow> Duration) \<Rightarrow> Clocks \<Rightarrow> Event \<Rightarrow> Clocks" where
  "tick ret c (WorkerSend i) = c\<lparr>sentAt := sentAt c @ [ret i]\<rparr>"
| "tick ret c (WorkerDone i) = c\<lparr>joinAt := max (joinAt c) (ret i)\<rparr>"
| "tick ret c JoinClose = c\<lparr>closedAt := joinAt c\<rparr>"
| "tick ret c MainRecv =
     (case sentAt c of
        [] \<Rightarrow> c
      | t # ts \<Rightarrow> c\<lparr>sentAt := ts, mainAt := max (mainAt c) t\<rparr>)"
| "tick ret c MainReturn = c\<lparr>mainAt := max (mainAt c) (closedAt c)\<rparr>"

fun runAt ::
  "SimRegistry \<Rightarrow> (string \<Rightarrow> CallEnv) \<Rightarrow> string \<Rightarrow> State \<times> Clocks \<Rightarrow> Event list
   \<Rightarrow> (State \<times> Clocks) option" where
  "runAt sreg env productID sc [] = Some sc"
| "runAt sreg env productID sc (e # es) =
     (case step (registryOf sreg) env productID (fst sc) e of
        None \<Rightarrow> None
      | Some s' \<Rightarrow>
          runAt sreg env productID (s', tick (returnedAt sreg env productID) (snd sc) e) es)"

definition initTimed :: "SimRegistry \<Rightarrow> string \<Rightarrow> State \<times> Clocks" where
  "initTimed sreg productID = (initState (registryOf sreg) productID, initClocks)"

text \<open>The results of a round: the one result of each registered backend.\<close>

definition outcomes :: "Registry \<Rightarrow> (string \<Rightarrow> CallEnv) \<Rightarrow> string \<Rightarrow> FetchResult list" where
  "outcomes reg env productID =
     map (\<lambda>(key, fn). executeService (env key) (context_WithTimeout aggregationTimeout)
                         key productID fn) reg"

section \<open>Invariants of a round\<close>

text \<open>
  \<open>order\<close> lists the workers that have sent, in the order of their sends: what the
  loop has received followed by what the channel still buffers is their results in that
  order.
\<close>

definition sentOrder :: "Registry \<Rightarrow> (string \<Rightarrow> CallEnv) \<Rightarrow> string \<Rightarrow> State \<Rightarrow> nat list \<Rightarrow> bool" where
  "sentOrder reg env productID s order \<longleftrightarrow>
     distinct order
     \<and> set order = {i. i < length reg \<and> workers s ! i \<noteq> Running}
     \<and> received s @ resultChan s = map (workerResult reg env productID) order"

text \<open>
  The invariant of every reachable state: one phase per worker, the counter of the
  wait group counts the workers that are not finished, the channel is closed only once
  every worker has finished, and the summary is the fan-in of the results received.
\<close>

definition roundInv :: "Registry \<Rightarrow> (string \<Rightarrow> CallEnv) \<Rightarrow> string \<Rightarrow> State \<Rightarrow> bool" where
  "roundInv reg env productID s \<longleftrightarrow>
     length (workers s) = length reg
     \<and> wg s = int (length (filter (\<lambda>p. p \<noteq> Finished) (workers s)))
     \<and> (chanClosed s \<longrightarrow> (\<forall>p \<in> set (workers s). p = Finished))
     \<and> (\<exists>order. sentOrder reg env productID s order)
     \<and> (case mainPhase s of
           Draining \<Rightarrow>
             fanInAll (received s) (initSummary productID, []) = Inr (summary s, serviceErrors s)
         | Returned \<Rightarrow>
             chanClosed s \<and> resultChan s = []
             \<and> (\<exists>sm. fanInAll (received s) (initSummary productID, []) = Inr (sm, serviceErrors s)
                   \<and> summary s = sm\<lparr>ServiceErrors := serviceErrors s\<rparr>)
         | Panicked \<Rightarrow> (\<exists>p. fanInAll (received s) (initSummary productID, []) = Inl p))"

text \<open>The number of steps a round can still take is bounded by this weight.\<close>

definition weight :: "State \<Rightarrow> nat" where
  "weight s =
     3 * length (filter (\<lambda>p. p = Running) (workers s))
     + length (filter (\<lambda>p. p = Sent) (workers s))
     + length (resultChan s)
     + (if chanClosed s then 0 else 1)
     + (if mainPhase s = Draining then 1 else 0)"

text \<open>
  Invariants of the clocks: every clock is below a bound; and, for the order in which
  the workers have sent, the buffered send instants are those of the results not yet
  received, and the loop's clock is past the return of every call whose result it has
  received.
\<close>

definition clocksBelow :: "Duration \<Rightarrow> Clocks \<Rightarrow> bool" where
  "clocksBelow b c \<longleftrightarrow>
     list_all (\<lambda>t. t \<le> b) (sentAt c) \<and> joinAt c \<le> b \<and> closedAt c \<le> b \<and> mainAt c \<le> b"

definition clocksOrder ::
  "SimRegistry \<Rightarrow> (string \<Rightarrow> CallEnv) \<Rightarrow> string \<Rightarrow> State \<Rightarrow> Clocks \<Rightarrow> nat list \<Rightarrow> bool" where
  "clocksOrder sreg env productID s c order \<longleftrightarrow>
     sentOrder (registryOf sreg) env productID s order
     \<and> sentAt c = map (returnedAt sreg env productID) (drop (length (received s)) order)
     \<and> list_all (\<lambda>j. returnedAt sreg env productID j \<le> mainAt c)
          (take (length (received s)) order)"

definition timedInv ::
  "SimRegistry \<Rightarrow> (string \<Rightarrow> CallEnv) \<Rightarrow> string \<Rightarrow> State \<times> Clocks \<Rightarrow> bool" where
  "timedInv sreg env productID sc \<longleftrightarrow>
     roundInv (registryOf sreg) env productID (fst sc)
     \<and> (\<exists>order. clocksOrder sreg env productID (fst sc) (snd sc) order)"

section \<open>Reading a summary field by its backend key\<close>

text \<open>
  The three keys the fan-in loop knows, the value and status the summary holds for a
  key, the fallback constant of a key, and what a result settles its field to.
\<close>

definition fieldKeys :: "string set" where
  "fieldKeys = {''price'', ''stock'', ''promotion''}"

definition fieldOf :: "string \<Rightarrow> CartSummary \<Rightarrow> GoValue \<times> Status" where
  "fieldOf k sm =
     (if k = ''price'' then (VFloat64 (Price sm), PriceStatus sm)
      else if k = ''stock'' then (VInt (Stock sm), StockStatus sm)
      else if k = ''promotion'' then (VString (Promotion sm), PromotionStatus sm)
      else (VNil, []))"

definition fallbackOf :: "string \<Rightarrow> GoValue" where
  "fallbackOf k =
     (if k = ''price'' then VFloat64 fallbackPrice
      else if k = ''stock'' then VInt fallbackStock
      else if k = ''promotion'' then VString fallbackPromotion
      else VNil)"

definition settled :: "FetchResult \<Rightarrow> GoValue \<times> Status" where
  "settled r =
     (if Status r = StatusSuccess then (Value r, StatusSuccess)
      else (fallbackOf (Key r), StatusFallback))"

text \<open>
  A result is well typed when, if it reports SUCCESS, its value has the dynamic type
  the type assertion for its key expects.
\<close>

definition wellTyped :: "FetchResult \<Rightarrow> bool" where
  "wellTyped r \<longleftrightarrow>
     (if Status r = StatusSuccess then
        (if Key r = ''price'' then (case Value r of VFloat64 x \<Rightarrow> True | _ \<Rightarrow> False)
         else if Key r = ''stock'' then (case Value r of VInt n \<Rightarrow> True | _ \<Rightarrow> False)
         else if Key r = ''promotion'' then (case Value r of VString t \<Rightarrow> True | _ \<Rightarrow> False)
         else True)
      else True)"

text \<open>The structured errors carried by a sequence of results, in order.\<close>

definition errorsOf :: "FetchResult list \<Rightarrow> ServiceError list" where
  "errorsOf rs = List.map_filter Error rs"

section \<open>main: the HTTP handler\<close>

text \<open>
  \<open>Duration.Milliseconds\<close> is the integer division of the nanosecond count, truncated
  toward zero.
\<close>

definition Duration_Milliseconds :: "Duration \<Rightarrow> int" where
  "Duration_Milliseconds d =
     (if d < 0 then - ((- d) div Millisecond) else d div Millisecond)"

datatype Response = HttpError nat string | HttpJSON nat CartSummary

text \<open>
  \<open>GetCartSummary\<close> runs the engine on the path variable \<open>sku\<close>, answers 500 on an
  error, and otherwise stamps \<open>TotalTimeMs\<close> with the elapsed wall-clock time (measured
  by the clock, so a parameter here) and encodes the summary with status 200. It has no
  response of its own while the engine has not returned.
\<close>

definition GetCartSummary ::
  "Registry \<Rightarrow> (string \<Rightarrow> CallEnv) \<Rightarrow> string \<Rightarrow> Event list \<Rightarrow> Duration \<Rightarrow> Response option" where
  "GetCartSummary reg env sku es elapsed =
     (case FanOutAndAggregate reg env sku es of
        Returns cart err \<Rightarrow>
          (case err of
             Some e \<Rightarrow>
               Some (HttpError 500 ''Failed to aggregate data due to internal system error'')
           | None \<Rightarrow>
               Some (HttpJSON 200 (cart\<lparr>TotalTimeMs := Duration_Milliseconds elapsed\<rparr>)))
      | Panics \<Rightarrow> None
      | Pending \<Rightarrow> None)"

section \<open>A nominal runtime and two schedules\<close>

text \<open>
  Every call starts at the instant the context is created. The schedule lets the
  promotion and price workers send first, as their delays suggest, and the stock worker
  last.
\<close>

definition nominalEnv :: "string \<Rightarrow> CallEnv" where
  "nominalEnv key = \<lparr>started = 0, pickTimer = True\<rparr>"

definition nominalSchedule :: "Event list" where
  "nominalSchedule =
     [WorkerSend 2, WorkerSend 0, WorkerDone 0, MainRecv, WorkerSend 1, WorkerDone 1,
      WorkerDone 2, MainRecv, JoinClose, MainRecv, MainReturn]"

definition emptySchedule :: "Event list" where
  "emptySchedule = [JoinClose, MainReturn]"

text \<open>
  The summary of the all-success scenario, and the summary and the structured error of
  the scenario in which the price backend runs into the deadline.
\<close>

definition successSummary :: "string \<Rightarrow> CartSummary" where
  "successSummary productID =
     \<lparr>ProductID = productID, Price = 4999 / 100, PriceStatus = StatusSuccess,
      Stock = 120, StockStatus = StatusSuccess,
      Promotion = ''Buy 1 Get 1 Half Off!'', PromotionStatus = StatusSuccess,
      TotalTimeMs = 0, ServiceErrors = []\<rparr>"

definition priceTimeoutError :: ServiceError where
  "priceTimeoutError =
     \<lparr>ServiceKey = ''price'',
      Message = ''Service execution exceeded the global aggregation timeout'',
      Timeout = True, Err = DeadlineExceeded\<rparr>"

definition priceTimeoutSummary :: CartSummary where
  "priceTimeoutSummary =
     \<lparr>ProductID = ''TEST-SKU-TIMEOUT'', Price = 0, PriceStatus = StatusFallback,
      Stock = 120, StockStatus = StatusSuccess,
      Promotion = ''Buy 1 Get 1 Half Off!'', PromotionStatus = StatusSuccess,
      TotalTimeMs = 0, ServiceErrors = [priceTimeoutError]\<rparr>"

text \<open>
  A schedule in which every worker sends and finishes before the loop receives, the
  stock worker sending first; a runtime that starts every call 100 ms late, so that the
  stock backend and the slowed price backend both run into the deadline; and the
  summary of that round, given the order in which the two errors arrived.
\<close>

definition lateSchedule :: "Event list" where
  "lateSchedule =
     [WorkerSend 1, WorkerSend 0, WorkerSend 2, WorkerDone 2, WorkerDone 1, WorkerDone 0,
      JoinClose, MainRecv, MainRecv, MainRecv, MainReturn]"

definition slowEnv :: "string \<Rightarrow> CallEnv" where
  "slowEnv key = \<lparr>started = 100 * Millisecond, pickTimer = True\<rparr>"

definition stockTimeoutError :: ServiceError where
  "stockTimeoutError =
     \<lparr>ServiceKey = ''stock'',
      Message = ''Service execution exceeded the global aggregation timeout'',
      Timeout = True, Err = DeadlineExceeded\<rparr>"

definition twoTimeoutsSummary :: "ServiceError list \<Rightarrow> CartSummary" where
  "twoTimeoutsSummary errs =
     \<lparr>ProductID = ''TEST-SKU-TIMEOUT'', Price = 0, PriceStatus = StatusFallback,
      Stock = 0, StockStatus = StatusFallback,
      Promotion = ''Buy 1 Get 1 Half Off!'', PromotionStatus = StatusSuccess,
      TotalTimeMs = 0, ServiceErrors = errs\<rparr>"

text \<open>
  The summary of a round for an ordinary product id in which only the stock backend
  runs into the deadline.
\<close>

definition stockTimeoutSummary :: "string \<Rightarrow> CartSummary" where
  "stockTimeoutSummary productID =
     \<lparr>ProductID = productID, Price = 4999 / 100, PriceStatus = StatusSuccess,
      Stock = 0, StockStatus = StatusFallback,
      Promotion = ''Buy 1 Get 1 Half Off!'', PromotionStatus = StatusSuccess,
      TotalTimeMs = 0, ServiceErrors = [stockTimeoutError]\<rparr>"

section \<open>Basic facts\<close>

lemma Status_distinct:
  "StatusSuccess \<noteq> StatusTimeout" "StatusSuccess \<noteq> StatusError"
  "StatusSuccess \<noteq> StatusFallback" "StatusTimeout \<noteq> StatusError"
  "StatusTimeout \<noteq> StatusFallback" "StatusError \<noteq> StatusFallback"
  "StatusSuccess \<noteq> []" "StatusTimeout \<noteq> []" "StatusError \<noteq> []" "StatusFallback \<noteq> []"
  by (simp_all add: StatusSuccess_def StatusTimeout_def StatusError_def StatusFallback_def)

lemma executeService_cases:
  "executeService env ctx key pid fn =
     (case snd (fn env ctx pid) of
        None \<Rightarrow> \<lparr>Key = key, Value = fst (fn env ctx pid), Status = StatusSuccess, Error = None\<rparr>
      | Some e \<Rightarrow>
          if e = DeadlineExceeded then
            \<lparr>Key = key, Value = fst (fn env ctx pid), Status = StatusTimeout,
             Error = Some \<lparr>ServiceKey = key,
                Message = ''Service execution exceeded the global aggregation timeout'',
                Timeout = True, Err = e\<rparr>\<rparr>
          else
            \<lparr>Key = key, Value = fst (fn env ctx pid), Status = StatusError,
             Error = Some \<lparr>ServiceKey = key, Message = ''External service call failed'',
                Timeout = False, Err = e\<rparr>\<rparr>)"
  by (simp add: executeService_def Let_def split: prod.splits option.splits)

section \<open>Lemmas about rounds and the fan-in\<close>

lemma filter_update_drop:
  "i < length ws \<Longrightarrow> P (ws ! i) \<Longrightarrow> \<not> P y \<Longrightarrow>
   Suc (length (filter P (ws[i := y]))) = length (filter P ws)"
proof (induction ws arbitrary: i)
  case Nil
  then show ?case by simp
next
  case (Cons w ws)
  then show ?case by (cases i) auto
qed

lemma filter_update_add:
  "i < length ws \<Longrightarrow> \<not> P (ws ! i) \<Longrightarrow> P y \<Longrightarrow>
   length (filter P (ws[i := y])) = Suc (length (filter P ws))"
proof (induction ws arbitrary: i)
  case Nil
  then show ?case by simp
next
  case (Cons w ws)
  then show ?case by (cases i) auto
qed

lemma filter_update_keep:
  "i < length ws \<Longrightarrow> P (ws ! i) = P y \<Longrightarrow>
   length (filter P (ws[i := y])) = length (filter P ws)"
proof (induction ws arbitrary: i)
  case Nil
  then show ?case by simp
next
  case (Cons w ws)
  then show ?case by (cases i) auto
qed

lemma fanInAll_append:
  "fanInAll (xs @ ys) acc =
     (case fanInAll xs acc of Inl p \<Rightarrow> Inl p | Inr acc' \<Rightarrow> fanInAll ys acc')"
  by (induction xs arbitrary: acc) (auto split: sum.splits)

lemma step_weight:
  "step reg env pid s e = Some s' \<Longrightarrow> weight s' < weight s"
proof (cases e)
  case (WorkerSend i)
  assume st: "step reg env pid s e = Some s'"
  with WorkerSend have g: "i < length (workers s)" "workers s ! i = Running"
    and s': "s' = s\<lparr>workers := (workers s)[i := Sent],
                   resultChan := resultChan s @ [workerResult reg env pid i]\<rparr>"
    by (auto split: if_splits)
  have a: "Suc (length (filter (\<lambda>p. p = Running) ((workers s)[i := Sent])))
             = length (filter (\<lambda>p. p = Running) (workers s))"
    using g by (intro filter_update_drop) auto
  have b: "length (filter (\<lambda>p. p = Sent) ((workers s)[i := Sent]))
             = Suc (length (filter (\<lambda>p. p = Sent) (workers s)))"
    using g by (intro filter_update_add) auto
  show ?thesis using a b by (simp add: s' weight_def)
next
  case (WorkerDone i)
  assume st: "step reg env pid s e = Some s'"
  with WorkerDone have g: "i < length (workers s)" "workers s ! i = Sent"
    and s': "s' = s\<lparr>workers := (workers s)[i := Finished], wg := wg s - 1\<rparr>"
    by (auto split: if_splits)
  have a: "length (filter (\<lambda>p. p = Running) ((workers s)[i := Finished]))
             = length (filter (\<lambda>p. p = Running) (workers s))"
    using g by (intro filter_update_keep) auto
  have b: "Suc (length (filter (\<lambda>p. p = Sent) ((workers s)[i := Finished])))
             = length (filter (\<lambda>p. p = Sent) (workers s))"
    using g by (intro filter_update_drop) auto
  show ?thesis using a b by (simp add: s' weight_def)
next
  case JoinClose
  assume "step reg env pid s e = Some s'"
  with JoinClose show ?thesis by (auto simp: weight_def split: if_splits)
next
  case MainRecv
  assume "step reg env pid s e = Some s'"
  with MainRecv show ?thesis
    by (auto simp: weight_def split: if_splits list.splits sum.splits)
next
  case MainReturn
  assume "step reg env pid s e = Some s'"
  with MainReturn show ?thesis by (auto simp: weight_def split: if_splits)
qed

lemma run_weight:
  "run reg env pid s es = Some s' \<Longrightarrow> weight s' + length es \<le> weight s"
proof (induction es arbitrary: s)
  case Nil
  then show ?case by simp
next
  case (Cons e es)
  then obtain s1 where s1: "step reg env pid s e = Some s1" "run reg env pid s1 es = Some s'"
    by (auto split: option.splits)
  from Cons.IH [OF s1(2)] step_weight [OF s1(1)] show ?case by simp
qed

lemma weight_initState: "weight (initState reg pid) = 3 * length reg + 2"
  by (simp add: weight_def initState_def)

lemma roundInv_initState: "roundInv reg env pid (initState reg pid)"
proof -
  have "sentOrder reg env pid (initState reg pid) []"
    by (simp add: sentOrder_def initState_def)
  then show ?thesis
    unfolding roundInv_def by (auto simp: initState_def)
qed

lemma all_Finished_iff:
  "length (filter (\<lambda>p. p \<noteq> Finished) ws) = 0 \<longleftrightarrow> (\<forall>p \<in> set ws. p = Finished)"
  by (induction ws) auto

lemma roundInv_WorkerSend:
  assumes inv: "roundInv reg env pid s"
    and st: "step reg env pid s (WorkerSend i) = Some s'"
  shows "roundInv reg env pid s'"
proof -
  from st have g: "i < length (workers s)" "workers s ! i = Running"
    and s': "s' = s\<lparr>workers := (workers s)[i := Sent],
                   resultChan := resultChan s @ [workerResult reg env pid i]\<rparr>"
    by (auto split: if_splits)
  from inv have len: "length (workers s) = length reg"
    and wg: "wg s = int (length (filter (\<lambda>p. p \<noteq> Finished) (workers s)))"
    and cl: "chanClosed s \<longrightarrow> (\<forall>p \<in> set (workers s). p = Finished)"
    by (auto simp: roundInv_def)
  from inv obtain order where ord: "sentOrder reg env pid s order"
    by (auto simp: roundInv_def)
  have ncl: "\<not> chanClosed s"
    using cl g nth_mem by fastforce
  have cnt: "length (filter (\<lambda>p. p \<noteq> Finished) ((workers s)[i := Sent]))
               = length (filter (\<lambda>p. p \<noteq> Finished) (workers s))"
    using g by (intro filter_update_keep) auto
  have inotin: "i \<notin> set order" using ord g by (simp add: sentOrder_def)
  have sets: "{j. j < length reg \<and> (workers s)[i := Sent] ! j \<noteq> Running}
                = insert i {j. j < length reg \<and> workers s ! j \<noteq> Running}"
    using g len by (auto simp: nth_list_update)
  have ord': "sentOrder reg env pid s' (order @ [i])"
    using ord inotin sets by (simp add: sentOrder_def s')
  show ?thesis
    unfolding roundInv_def
  proof (intro conjI)
    show "length (workers s') = length reg" using len by (simp add: s')
    show "wg s' = int (length (filter (\<lambda>p. p \<noteq> Finished) (workers s')))"
      using wg cnt by (simp add: s')
    show "chanClosed s' \<longrightarrow> (\<forall>p \<in> set (workers s'). p = Finished)"
      using ncl by (simp add: s')
    show "\<exists>order. sentOrder reg env pid s' order" using ord' by blast
    show "case mainPhase s' of
            Draining \<Rightarrow> fanInAll (received s') (initSummary pid, []) = Inr (summary s', serviceErrors s')
          | Returned \<Rightarrow> chanClosed s' \<and> resultChan s' = []
              \<and> (\<exists>sm. fanInAll (received s') (initSummary pid, []) = Inr (sm, serviceErrors s')
                    \<and> summary s' = sm\<lparr>ServiceErrors := serviceErrors s'\<rparr>)
          | Panicked \<Rightarrow> (\<exists>p. fanInAll (received s') (initSummary pid, []) = Inl p)"
      using inv ncl by (auto simp: roundInv_def s' split: MainPhase.splits)
  qed
qed

lemma roundInv_WorkerDone:
  assumes inv: "roundInv reg env pid s"
    and st: "step reg env pid s (WorkerDone i) = Some s'"
  shows "roundInv reg env pid s'"
proof -
  from st have g: "i < length (workers s)" "workers s ! i = Sent"
    and s': "s' = s\<lparr>workers := (workers s)[i := Finished], wg := wg s - 1\<rparr>"
    by (auto split: if_splits)
  from inv have len: "length (workers s) = length reg"
    and wg: "wg s = int (length (filter (\<lambda>p. p \<noteq> Finished) (workers s)))"
    and cl: "chanClosed s \<longrightarrow> (\<forall>p \<in> set (workers s). p = Finished)"
    by (auto simp: roundInv_def)
  from inv obtain order where ord: "sentOrder reg env pid s order"
    by (auto simp: roundInv_def)
  have ncl: "\<not> chanClosed s"
    using cl g nth_mem by fastforce
  have cnt: "Suc (length (filter (\<lambda>p. p \<noteq> Finished) ((workers s)[i := Finished])))
               = length (filter (\<lambda>p. p \<noteq> Finished) (workers s))"
    using g by (intro filter_update_drop) auto
  have sets: "{j. j < length reg \<and> (workers s)[i := Finished] ! j \<noteq> Running}
                = {j. j < length reg \<and> workers s ! j \<noteq> Running}"
    using g len by (auto simp: nth_list_update)
  have ord': "sentOrder reg env pid s' order"
    using ord sets by (simp add: sentOrder_def s')
  show ?thesis
    unfolding roundInv_def
  proof (intro conjI)
    show "length (workers s') = length reg" using len by (simp add: s')
    show "wg s' = int (length (filter (\<lambda>p. p \<noteq> Finished) (workers s')))"
      using wg cnt by (simp add: s')
    show "chanClosed s' \<longrightarrow> (\<forall>p \<in> set (workers s'). p = Finished)"
      using ncl by (simp add: s')
    show "\<exists>order. sentOrder reg env pid s' order" using ord' by blast
    show "case mainPhase s' of
            Draining \<Rightarrow> fanInAll (received s') (initSummary pid, []) = Inr (summary s', serviceErrors s')
          | Returned \<Rightarrow> chanClosed s' \<and> resultChan s' = []
              \<and> (\<exists>sm. fanInAll (received s') (initSummary pid, []) = Inr (sm, serviceErrors s')
                    \<and> summary s' = sm\<lparr>ServiceErrors := serviceErrors s'\<rparr>)
          | Panicked \<Rightarrow> (\<exists>p. fanInAll (received s') (initSummary pid, []) = Inl p)"
      using inv ncl by (auto simp: roundInv_def s' split: MainPhase.splits)
  qed
qed

lemma roundInv_JoinClose:
  assumes inv: "roundInv reg env pid s"
    and st: "step reg env pid s JoinClose = Some s'"
  shows "roundInv reg env pid s'"
proof -
  from st have g: "wg s = 0" and s': "s' = s\<lparr>chanClosed := True\<rparr>"
    by (auto split: if_splits)
  from inv g have "length (filter (\<lambda>p. p \<noteq> Finished) (workers s)) = 0"
    by (simp add: roundInv_def)
  then have fin: "\<forall>p \<in> set (workers s). p = Finished"
    by (simp only: all_Finished_iff)
  from inv obtain order where ord: "sentOrder reg env pid s order"
    by (auto simp: roundInv_def)
  then have ord': "sentOrder reg env pid s' order"
    by (simp add: sentOrder_def s')
  from st have nclosed: "\<not> chanClosed s" by (auto split: if_splits)
  with inv have nret: "mainPhase s \<noteq> Returned"
    by (auto simp: roundInv_def)
  show ?thesis
    using inv fin ord' nret unfolding roundInv_def
    by (auto simp: s' split: MainPhase.splits)
qed

lemma roundInv_MainRecv:
  assumes inv: "roundInv reg env pid s"
    and st: "step reg env pid s MainRecv = Some s'"
  shows "roundInv reg env pid s'"
proof -
  from st obtain res rest where dr: "mainPhase s = Draining" and ch: "resultChan s = res # rest"
    by (auto split: if_splits list.splits)
  from inv dr have fa: "fanInAll (received s) (initSummary pid, []) = Inr (summary s, serviceErrors s)"
    by (simp add: roundInv_def)
  from inv obtain order where ord: "sentOrder reg env pid s order"
    by (auto simp: roundInv_def)
  show ?thesis
  proof (cases "fanIn res (summary s, serviceErrors s)")
    case (Inl p)
    with st dr ch have s': "s' = s\<lparr>resultChan := rest, received := received s @ [res],
                                 mainPhase := Panicked\<rparr>"
      by simp
    have ord': "sentOrder reg env pid s' order"
      using ord ch by (simp add: sentOrder_def s')
    have "fanInAll (received s @ [res]) (initSummary pid, []) = Inl p"
      using fa Inl by (simp add: fanInAll_append)
    then show ?thesis
      using inv ord' unfolding roundInv_def by (auto simp: s')
  next
    case (Inr acc)
    obtain sm errs where acc: "acc = (sm, errs)" by (cases acc)
    with Inr st dr ch have s': "s' = s\<lparr>resultChan := rest, received := received s @ [res],
                                 summary := sm, serviceErrors := errs\<rparr>"
      by simp
    have ord': "sentOrder reg env pid s' order"
      using ord ch by (simp add: sentOrder_def s')
    have "fanInAll (received s @ [res]) (initSummary pid, []) = Inr (sm, errs)"
      using fa Inr acc by (simp add: fanInAll_append)
    then show ?thesis
      using inv ord' dr unfolding roundInv_def by (auto simp: s')
  qed
qed

lemma roundInv_MainReturn:
  assumes inv: "roundInv reg env pid s"
    and st: "step reg env pid s MainReturn = Some s'"
  shows "roundInv reg env pid s'"
proof -
  from st have g: "mainPhase s = Draining" "resultChan s = []" "chanClosed s"
    and s': "s' = s\<lparr>summary := (summary s)\<lparr>ServiceErrors := serviceErrors s\<rparr>,
                   mainPhase := Returned\<rparr>"
    by (auto split: if_splits)
  from inv obtain order where ord: "sentOrder reg env pid s order"
    by (auto simp: roundInv_def)
  then have ord': "sentOrder reg env pid s' order"
    by (simp add: sentOrder_def s')
  show ?thesis
    using inv ord' g unfolding roundInv_def by (auto simp: s')
qed

lemma roundInv_step:
  "roundInv reg env pid s \<Longrightarrow> step reg env pid s e = Some s' \<Longrightarrow> roundInv reg env pid s'"
  by (cases e)
    (blast intro: roundInv_WorkerSend roundInv_WorkerDone roundInv_JoinClose
       roundInv_MainRecv roundInv_MainReturn)+

lemma roundInv_run:
  "roundInv reg env pid s \<Longrightarrow> run reg env pid s es = Some s' \<Longrightarrow> roundInv reg env pid s'"
proof (induction es arbitrary: s)
  case Nil
  then show ?case by simp
next
  case (Cons e es)
  then obtain s1 where s1: "step reg env pid s e = Some s1" "run reg env pid s1 es = Some s'"
    by (auto split: option.splits)
  from Cons.IH [OF roundInv_step [OF Cons.prems(1) s1(1)] s1(2)] show ?case .
qed

lemma roundInv_reachable:
  "run reg env pid (initState reg pid) es = Some s \<Longrightarrow> roundInv reg env pid s"
  by (rule roundInv_run [OF roundInv_initState])

lemma outcomes_workerResult:
  "map (workerResult reg env pid) [0..<length reg] = outcomes reg env pid"
  by (rule nth_equalityI) (auto simp: outcomes_def workerResult_def split: prod.splits)

lemma Key_executeService [simp]: "Key (executeService env ctx key pid fn) = key"
  by (simp add: executeService_cases split: option.splits)

lemma Key_workerResult [simp]: "Key (workerResult reg env pid i) = fst (reg ! i)"
  by (simp add: workerResult_def)

lemma map_Key_outcomes [simp]: "map Key (outcomes reg env pid) = map fst reg"
  by (auto simp: outcomes_def split: prod.splits)

lemma sentOrder_bound:
  assumes "sentOrder reg env pid s order"
  shows "length order \<le> length reg"
proof -
  from assms have d: "distinct order" and sub: "set order \<subseteq> {..<length reg}"
    by (auto simp: sentOrder_def)
  have "length order = card (set order)" using d by (simp add: distinct_card)
  also have "\<dots> \<le> card {..<length reg}" using sub by (intro card_mono) auto
  finally show ?thesis by simp
qed

lemma sentOrder_room:
  assumes ord: "sentOrder reg env pid s order"
    and i: "i < length reg" "workers s ! i = Running"
  shows "length order < length reg"
proof -
  from ord i have d: "distinct order" and sub: "set order \<subseteq> {..<length reg} - {i}"
    by (auto simp: sentOrder_def)
  have "length order = card (set order)" using d by (simp add: distinct_card)
  also have "\<dots> \<le> card ({..<length reg} - {i})" using sub by (intro card_mono) auto
  also have "\<dots> < length reg" using i by simp
  finally show ?thesis .
qed

lemma phase_cases:
  "(\<exists>i < length ws. ws ! i = Running) \<or> (\<exists>i < length ws. ws ! i = Sent)
   \<or> (\<forall>p \<in> set ws. p = Finished)"
proof (cases "\<forall>p \<in> set ws. p = Finished")
  case True
  then show ?thesis by blast
next
  case False
  then obtain p where p: "p \<in> set ws" "p \<noteq> Finished" by blast
  then obtain i where i: "i < length ws" "ws ! i = p" by (auto simp: in_set_conv_nth)
  from p(2) have "p = Running \<or> p = Sent" by (cases p) auto
  with i show ?thesis by blast
qed

lemma progress:
  assumes inv: "roundInv reg env pid s" and dr: "mainPhase s = Draining"
  shows "\<exists>e s'. step reg env pid s e = Some s'"
proof -
  from inv have len: "length (workers s) = length reg"
    and wg: "wg s = int (length (filter (\<lambda>p. p \<noteq> Finished) (workers s)))"
    by (auto simp: roundInv_def)
  from inv obtain order where ord: "sentOrder reg env pid s order"
    by (auto simp: roundInv_def)
  consider (running) i where "i < length (workers s)" "workers s ! i = Running"
    | (sent) i where "i < length (workers s)" "workers s ! i = Sent"
    | (finished) "\<forall>p \<in> set (workers s). p = Finished"
    using phase_cases [of "workers s"] by blast
  then show ?thesis
  proof cases
    case running
    from sentOrder_room [OF ord] running len have "length order < length reg" by simp
    moreover from ord have "received s @ resultChan s = map (workerResult reg env pid) order"
      by (simp add: sentOrder_def)
    then have "length (received s @ resultChan s) = length order"
      by (simp only: length_map)
    then have "length (received s) + length (resultChan s) = length order"
      by simp
    ultimately have "length (resultChan s) < length reg" by simp
    with running have "step reg env pid s (WorkerSend i) \<noteq> None" by simp
    then show ?thesis by blast
  next
    case sent
    then have "step reg env pid s (WorkerDone i) \<noteq> None" by simp
    then show ?thesis by blast
  next
    case finished
    then have z: "wg s = 0" using wg all_Finished_iff [of "workers s"] by simp
    show ?thesis
    proof (cases "chanClosed s")
      case False
      with z have "step reg env pid s JoinClose \<noteq> None" by simp
      then show ?thesis by blast
    next
      case True
      show ?thesis
      proof (cases "resultChan s")
        case Nil
        with True dr have "step reg env pid s MainReturn \<noteq> None" by simp
        then show ?thesis by blast
      next
        case (Cons res rest)
        show ?thesis
        proof (cases "fanIn res (summary s, serviceErrors s)")
          case (Inl p)
          with dr Cons have "step reg env pid s MainRecv \<noteq> None" by simp
          then show ?thesis by blast
        next
          case (Inr acc)
          with dr Cons have "step reg env pid s MainRecv \<noteq> None"
            by (cases acc) simp
          then show ?thesis by blast
        qed
      qed
    qed
  qed
qed

lemma run_append:
  "run reg env pid s (es @ es') =
     (case run reg env pid s es of None \<Rightarrow> None | Some s1 \<Rightarrow> run reg env pid s1 es')"
  by (induction es arbitrary: s) (auto split: option.splits)

lemma completion:
  "roundInv reg env pid s \<Longrightarrow> mainPhase s = Draining \<Longrightarrow>
   \<exists>es s'. run reg env pid s es = Some s' \<and> mainPhase s' \<noteq> Draining"
proof (induction "weight s" arbitrary: s rule: less_induct)
  case less
  from progress [OF less.prems] obtain e s1 where st: "step reg env pid s e = Some s1"
    by blast
  have inv1: "roundInv reg env pid s1" by (rule roundInv_step [OF less.prems(1) st])
  show ?case
  proof (cases "mainPhase s1 = Draining")
    case False
    with st have "run reg env pid s [e] = Some s1 \<and> mainPhase s1 \<noteq> Draining" by simp
    then show ?thesis by blast
  next
    case True
    from less.hyps [OF step_weight [OF st] inv1 True]
    obtain es s' where "run reg env pid s1 es = Some s'" "mainPhase s' \<noteq> Draining" by blast
    with st have "run reg env pid s (e # es) = Some s' \<and> mainPhase s' \<noteq> Draining" by simp
    then show ?thesis by blast
  qed
qed

lemma returned_received:
  assumes inv: "roundInv reg env pid s" and ret: "mainPhase s = Returned"
  shows "mset (received s) = mset (outcomes reg env pid) \<and> resultChan s = []"
proof -
  from inv ret have cl: "chanClosed s" and em: "resultChan s = []"
    by (auto simp: roundInv_def)
  from inv cl have fin: "\<forall>p \<in> set (workers s). p = Finished"
    and len: "length (workers s) = length reg"
    by (auto simp: roundInv_def)
  from inv obtain order where ord: "sentOrder reg env pid s order"
    by (auto simp: roundInv_def)
  have "\<And>i. i < length reg \<Longrightarrow> workers s ! i = Finished"
    using fin len nth_mem by metis
  then have "{i. i < length reg \<and> workers s ! i \<noteq> Running} = {0..<length reg}"
    by auto
  then have "set order = set [0..<length reg]"
    using ord by (simp add: sentOrder_def)
  moreover have "distinct order" using ord by (simp add: sentOrder_def)
  ultimately have "mset order = mset [0..<length reg]"
    by (metis distinct_upt set_eq_iff_mset_eq_distinct)
  then have "mset (map (workerResult reg env pid) order)
               = mset (map (workerResult reg env pid) [0..<length reg])"
    by (metis mset_map)
  moreover have "received s = map (workerResult reg env pid) order"
    using ord em by (simp add: sentOrder_def)
  ultimately show ?thesis using em by (simp add: outcomes_workerResult)
qed

lemma produced_keys:
  assumes inv: "roundInv reg env pid s" and dk: "distinct (map fst reg)"
  shows "distinct (map Key (received s @ resultChan s))
         \<and> set (map Key (received s @ resultChan s)) \<subseteq> set (map fst reg)
         \<and> length (received s @ resultChan s) \<le> length reg"
proof -
  from inv obtain order where ord: "sentOrder reg env pid s order"
    by (auto simp: roundInv_def)
  then have d: "distinct order" and sub: "\<forall>i \<in> set order. i < length (map fst reg)"
    and eq: "received s @ resultChan s = map (workerResult reg env pid) order"
    by (auto simp: sentOrder_def)
  have keys: "map Key (received s @ resultChan s) = map (nth (map fst reg)) order"
    using sub by (simp add: eq)
  have "inj_on (nth (map fst reg)) (set order)"
    using dk sub by (rule inj_on_nth)
  then have 1: "distinct (map (nth (map fst reg)) order)"
    using d by (simp add: distinct_map)
  have 2: "set (map (nth (map fst reg)) order) \<subseteq> set (map fst reg)"
    using sub by (auto simp del: map_map)
  have 3: "length (received s @ resultChan s) \<le> length reg"
    using sentOrder_bound [OF ord] by (simp add: eq)
  from 1 2 3 show ?thesis by (simp only: keys) 
qed

lemma errorsOf_simps [simp]:
  "errorsOf [] = []"
  "errorsOf (r # rs) = (case Error r of None \<Rightarrow> errorsOf rs | Some e \<Rightarrow> e # errorsOf rs)"
  by (simp_all add: errorsOf_def map_filter_simps split: option.splits)

lemma fanIn_price:
  "Key r = ''price'' \<Longrightarrow>
   fanIn r (sm0, e0) =
     (if Status r = StatusSuccess then
        (case Value r of
           VFloat64 x \<Rightarrow> Inr (sm0\<lparr>Price := x, PriceStatus := StatusSuccess\<rparr>, e0 @ errorsOf [r])
         | _ \<Rightarrow> Inl (InterfaceConversion ''float64''))
      else Inr (sm0\<lparr>Price := fallbackPrice, PriceStatus := StatusFallback\<rparr>, e0 @ errorsOf [r]))"
  by (simp add: fanIn_def split: option.splits GoValue.splits)

lemma fanIn_stock:
  "Key r = ''stock'' \<Longrightarrow>
   fanIn r (sm0, e0) =
     (if Status r = StatusSuccess then
        (case Value r of
           VInt n \<Rightarrow> Inr (sm0\<lparr>Stock := n, StockStatus := StatusSuccess\<rparr>, e0 @ errorsOf [r])
         | _ \<Rightarrow> Inl (InterfaceConversion ''int''))
      else Inr (sm0\<lparr>Stock := fallbackStock, StockStatus := StatusFallback\<rparr>, e0 @ errorsOf [r]))"
  by (simp add: fanIn_def split: option.splits GoValue.splits)

lemma fanIn_promotion:
  "Key r = ''promotion'' \<Longrightarrow>
   fanIn r (sm0, e0) =
     (if Status r = StatusSuccess then
        (case Value r of
           VString t \<Rightarrow>
             Inr (sm0\<lparr>Promotion := t, PromotionStatus := StatusSuccess\<rparr>, e0 @ errorsOf [r])
         | _ \<Rightarrow> Inl (InterfaceConversion ''string''))
      else Inr (sm0\<lparr>Promotion := fallbackPromotion, PromotionStatus := StatusFallback\<rparr>,
                e0 @ errorsOf [r]))"
  by (simp add: fanIn_def split: option.splits GoValue.splits)

lemma fanIn_other:
  "Key r \<notin> fieldKeys \<Longrightarrow> fanIn r (sm0, e0) = Inr (sm0, e0 @ errorsOf [r])"
  by (simp add: fanIn_def fieldKeys_def split: option.splits)

lemma Key_cases:
  obtains (price) "Key r = ''price''" | (stock) "Key r = ''stock''"
    | (promotion) "Key r = ''promotion''" | (other) "Key r \<notin> fieldKeys"
  by (auto simp: fieldKeys_def)

lemma key_cases:
  obtains (price) "k = ''price''" | (stock) "k = ''stock''"
    | (promotion) "k = ''promotion''" | (other) "k \<notin> fieldKeys"
  by (auto simp: fieldKeys_def)

lemma fieldOf_simps:
  "fieldOf ''price'' sm = (VFloat64 (Price sm), PriceStatus sm)"
  "fieldOf ''stock'' sm = (VInt (Stock sm), StockStatus sm)"
  "fieldOf ''promotion'' sm = (VString (Promotion sm), PromotionStatus sm)"
  "k \<notin> fieldKeys \<Longrightarrow> fieldOf k sm = (VNil, [])"
  by (simp_all add: fieldOf_def fieldKeys_def)

lemma fallbackOf_simps:
  "fallbackOf ''price'' = VFloat64 fallbackPrice"
  "fallbackOf ''stock'' = VInt fallbackStock"
  "fallbackOf ''promotion'' = VString fallbackPromotion"
  by (simp_all add: fallbackOf_def)

lemma fieldKeys_simps:
  "''price'' \<in> fieldKeys" "''stock'' \<in> fieldKeys" "''promotion'' \<in> fieldKeys"
  by (simp_all add: fieldKeys_def)

lemma fanIn_field_same:
  assumes "fanIn r (sm0, e0) = Inr (sm, e)" and "Key r \<in> fieldKeys"
  shows "fieldOf (Key r) sm = settled r"
proof (cases r rule: Key_cases)
  case price
  with assms(1) show ?thesis
    by (auto simp: fanIn_price fieldOf_simps settled_def fallbackOf_simps
        split: if_splits GoValue.splits)
next
  case stock
  with assms(1) show ?thesis
    by (auto simp: fanIn_stock fieldOf_simps settled_def fallbackOf_simps
        split: if_splits GoValue.splits)
next
  case promotion
  with assms(1) show ?thesis
    by (auto simp: fanIn_promotion fieldOf_simps settled_def fallbackOf_simps
        split: if_splits GoValue.splits)
next
  case other
  with assms(2) show ?thesis by simp
qed

lemma fanIn_field_other:
  assumes "fanIn r (sm0, e0) = Inr (sm, e)" and "Key r \<noteq> k"
  shows "fieldOf k sm = fieldOf k sm0"
proof (cases r rule: Key_cases)
  case price
  with assms have "k \<noteq> ''price''" by simp
  then have "\<And>x y. fieldOf k (sm0\<lparr>Price := x, PriceStatus := y\<rparr>) = fieldOf k sm0"
    by (simp add: fieldOf_def)
  with assms(1) price show ?thesis
    by (auto simp: fanIn_price split: if_splits GoValue.splits)
next
  case stock
  with assms have "k \<noteq> ''stock''" by simp
  then have "\<And>x y. fieldOf k (sm0\<lparr>Stock := x, StockStatus := y\<rparr>) = fieldOf k sm0"
    by (simp add: fieldOf_def)
  with assms(1) stock show ?thesis
    by (auto simp: fanIn_stock split: if_splits GoValue.splits)
next
  case promotion
  with assms have "k \<noteq> ''promotion''" by simp
  then have "\<And>x y. fieldOf k (sm0\<lparr>Promotion := x, PromotionStatus := y\<rparr>) = fieldOf k sm0"
    by (simp add: fieldOf_def)
  with assms(1) promotion show ?thesis
    by (auto simp: fanIn_promotion split: if_splits GoValue.splits)
next
  case other
  with assms(1) show ?thesis by (simp add: fanIn_other)
qed

lemma fanIn_field_unregistered:
  assumes "fanIn r (sm0, e0) = Inr (sm, e)" and "k \<notin> fieldKeys"
  shows "fieldOf k sm = fieldOf k sm0"
  using assms(2) by (simp add: fieldOf_simps)

lemma fanIn_field:
  assumes "fanIn r (sm0, e0) = Inr (sm, e)"
  shows "fieldOf k sm = (if Key r = k \<and> k \<in> fieldKeys then settled r else fieldOf k sm0)"
proof (cases "Key r = k")
  case False
  then show ?thesis using fanIn_field_other [OF assms] by simp
next
  case True
  show ?thesis
  proof (cases "k \<in> fieldKeys")
    case True
    with \<open>Key r = k\<close> fanIn_field_same [OF assms] show ?thesis by simp
  next
    case False
    then show ?thesis using fanIn_field_unregistered [OF assms] by simp
  qed
qed

lemma fanIn_frame:
  assumes "fanIn r (sm0, e0) = Inr (sm, e)"
  shows "ProductID sm = ProductID sm0 \<and> TotalTimeMs sm = TotalTimeMs sm0
         \<and> ServiceErrors sm = ServiceErrors sm0 \<and> e = e0 @ errorsOf [r]"
proof (cases r rule: Key_cases)
  case price
  with assms show ?thesis by (auto simp: fanIn_price split: if_splits GoValue.splits)
next
  case stock
  with assms show ?thesis by (auto simp: fanIn_stock split: if_splits GoValue.splits)
next
  case promotion
  with assms show ?thesis by (auto simp: fanIn_promotion split: if_splits GoValue.splits)
next
  case other
  with assms show ?thesis by (auto simp: fanIn_other)
qed

lemma fanIn_wellTyped:
  "(\<exists>acc'. fanIn r acc = Inr acc') \<longleftrightarrow> wellTyped r"
proof -
  obtain sm0 e0 where acc: "acc = (sm0, e0)" by (cases acc)
  show ?thesis
  proof (cases r rule: Key_cases)
    case price
    then show ?thesis
      by (auto simp: acc fanIn_price wellTyped_def split: GoValue.splits)
  next
    case stock
    then show ?thesis
      by (auto simp: acc fanIn_stock wellTyped_def split: GoValue.splits)
  next
    case promotion
    then show ?thesis
      by (auto simp: acc fanIn_promotion wellTyped_def split: GoValue.splits)
  next
    case other
    then show ?thesis
      by (auto simp: acc fanIn_other wellTyped_def fieldKeys_def)
  qed
qed

lemma fanInAll_wellTyped:
  "(\<exists>acc'. fanInAll rs acc = Inr acc') \<longleftrightarrow> (\<forall>r \<in> set rs. wellTyped r)"
proof (induction rs arbitrary: acc)
  case Nil
  then show ?case by simp
next
  case (Cons r rs)
  show ?case
  proof (cases "fanIn r acc")
    case (Inl p)
    then have "\<not> wellTyped r" using fanIn_wellTyped [of r acc] by simp
    with Inl show ?thesis by simp
  next
    case (Inr acc1)
    then have "wellTyped r" using fanIn_wellTyped [of r acc] by blast
    with Inr Cons.IH [of acc1] show ?thesis by simp
  qed
qed

lemma fanInAll_frame:
  "fanInAll rs (sm0, e0) = Inr (sm, e) \<Longrightarrow>
   ProductID sm = ProductID sm0 \<and> TotalTimeMs sm = TotalTimeMs sm0
   \<and> ServiceErrors sm = ServiceErrors sm0 \<and> e = e0 @ errorsOf rs"
proof (induction rs arbitrary: sm0 e0)
  case Nil
  then show ?case by simp
next
  case (Cons r rs)
  then obtain sm1 e1 where 1: "fanIn r (sm0, e0) = Inr (sm1, e1)"
    and 2: "fanInAll rs (sm1, e1) = Inr (sm, e)"
    by (auto split: sum.splits)
  from fanIn_frame [OF 1] Cons.IH [OF 2] show ?case
    by (auto split: option.splits)
qed

lemma fanInAll_field_absent:
  "fanInAll rs (sm0, e0) = Inr (sm, e) \<Longrightarrow> \<forall>r \<in> set rs. Key r \<noteq> k \<Longrightarrow>
   fieldOf k sm = fieldOf k sm0"
proof (induction rs arbitrary: sm0 e0)
  case Nil
  then show ?case by simp
next
  case (Cons r rs)
  then obtain sm1 e1 where 1: "fanIn r (sm0, e0) = Inr (sm1, e1)"
    and 2: "fanInAll rs (sm1, e1) = Inr (sm, e)"
    by (auto split: sum.splits)
  from Cons.prems(2) have "fieldOf k sm1 = fieldOf k sm0"
    by (simp add: fanIn_field [OF 1])
  moreover from Cons.IH [OF 2] Cons.prems(2) have "fieldOf k sm = fieldOf k sm1" by simp
  ultimately show ?case by simp
qed

lemma fanInAll_field_present:
  "fanInAll rs (sm0, e0) = Inr (sm, e) \<Longrightarrow> distinct (map Key rs) \<Longrightarrow> r \<in> set rs \<Longrightarrow>
   Key r \<in> fieldKeys \<Longrightarrow> fieldOf (Key r) sm = settled r"
proof (induction rs arbitrary: sm0 e0)
  case Nil
  then show ?case by simp
next
  case (Cons x rs)
  then obtain sm1 e1 where 1: "fanIn x (sm0, e0) = Inr (sm1, e1)"
    and 2: "fanInAll rs (sm1, e1) = Inr (sm, e)"
    by (auto split: sum.splits)
  show ?case
  proof (cases "r = x")
    case True
    from Cons.prems(2) have "Key r \<notin> Key ` set rs" using True by simp
    then have "\<forall>y \<in> set rs. Key y \<noteq> Key r" by (metis imageI)
    from fanInAll_field_absent [OF 2 this] have "fieldOf (Key r) sm = fieldOf (Key r) sm1" .
    also have "\<dots> = settled r" using Cons.prems(4) True by (simp add: fanIn_field [OF 1])
    finally show ?thesis .
  next
    case False
    with Cons.prems have "r \<in> set rs" "distinct (map Key rs)" by auto
    from Cons.IH [OF 2 this(2) this(1) Cons.prems(4)] show ?thesis .
  qed
qed

lemma snd_settled: "snd (settled r) = StatusSuccess \<or> snd (settled r) = StatusFallback"
  by (simp add: settled_def)

lemma fanInAll_status:
  "fanInAll rs (sm0, e0) = Inr (sm, e) \<Longrightarrow>
   snd (fieldOf k sm) = StatusSuccess \<or> snd (fieldOf k sm) = StatusFallback
   \<or> (fieldOf k sm = fieldOf k sm0 \<and> (k \<in> fieldKeys \<longrightarrow> (\<forall>r \<in> set rs. Key r \<noteq> k)))"
proof (induction rs arbitrary: sm0 e0)
  case Nil
  then show ?case by simp
next
  case (Cons r rs)
  then obtain sm1 e1 where 1: "fanIn r (sm0, e0) = Inr (sm1, e1)"
    and 2: "fanInAll rs (sm1, e1) = Inr (sm, e)"
    by (auto split: sum.splits)
  from Cons.IH [OF 2] fanIn_field [OF 1, of k] snd_settled [of r] show ?case
    by (auto split: if_splits)
qed

section \<open>The worker's structured error\<close>

text \<open>
  Claim C3. In the \<open>ServiceError\<close> a worker builds, \<open>Timeout\<close> is true exactly when the
  error the backend call returned is \<open>context.DeadlineExceeded\<close>. Deadline expiry gives
  status TIMEOUT with \<open>Timeout = true\<close>; any other error gives status ERROR with
  \<open>Timeout = false\<close>; no error gives status SUCCESS and no \<open>ServiceError\<close>. For a
  simulated backend configured to fail, the 503 error of the timer case gives ERROR and
  \<open>Timeout = false\<close>, the \<open>Done\<close> case gives TIMEOUT and \<open>Timeout = true\<close>.
\<close>

theorem executeService_timeout_flag:
  "(\<forall>se. Error (executeService env ctx key pid fn) = Some se \<longrightarrow>
      (Timeout se \<longleftrightarrow> snd (fn env ctx pid) = Some DeadlineExceeded))
   \<and> (snd (fn env ctx pid) = Some DeadlineExceeded \<longrightarrow>
        Status (executeService env ctx key pid fn) = StatusTimeout
        \<and> (\<exists>se. Error (executeService env ctx key pid fn) = Some se \<and> Timeout se))
   \<and> (\<forall>e. snd (fn env ctx pid) = Some e \<and> e \<noteq> DeadlineExceeded \<longrightarrow>
        Status (executeService env ctx key pid fn) = StatusError
        \<and> (\<exists>se. Error (executeService env ctx key pid fn) = Some se
              \<and> \<not> Timeout se \<and> Err se = e))
   \<and> (snd (fn env ctx pid) = None \<longrightarrow>
        Status (executeService env ctx key pid fn) = StatusSuccess
        \<and> Error (executeService env ctx key pid fn) = None)
   \<and> (\<forall>delay v se.
        Error (executeService env ctx key pid
                 (\<lambda>env ctx pid. simulatedCall env ctx delay pid True v)) = Some se \<longrightarrow>
        (case selectCase env ctx delay of
           TimerFired \<Rightarrow>
             \<not> Timeout se \<and> Err se = Errorf ''backend server responded with 503''
             \<and> Status (executeService env ctx key pid
                   (\<lambda>env ctx pid. simulatedCall env ctx delay pid True v)) = StatusError
         | ContextDone \<Rightarrow>
             Timeout se \<and> Err se = DeadlineExceeded
             \<and> Status (executeService env ctx key pid
                   (\<lambda>env ctx pid. simulatedCall env ctx delay pid True v)) = StatusTimeout))"
  by (auto simp: executeService_cases simulatedCall_def ctx_Err_def
      split: option.splits SelectCase.splits)

theorem executeService_timeout_flag_witness:
  "(\<exists>se. Error (executeService \<lparr>started = 0, pickTimer = True\<rparr>
              (context_WithTimeout aggregationTimeout)
              ''price'' ''TEST-SKU-TIMEOUT'' FetchPriceSimulates) = Some se \<and> Timeout se)
   \<and> snd (FetchPriceSimulates \<lparr>started = 0, pickTimer = True\<rparr>
            (context_WithTimeout aggregationTimeout) ''TEST-SKU-TIMEOUT'')
       = Some DeadlineExceeded
   \<and> (\<exists>se. Error (executeService \<lparr>started = 0, pickTimer = True\<rparr>
              (context_WithTimeout aggregationTimeout) ''price'' ''sku''
              (\<lambda>env ctx pid. simulatedCall env ctx (200 * Millisecond) pid True VNil)) = Some se
          \<and> \<not> Timeout se)"
proof -
  let ?env = "\<lparr>started = 0, pickTimer = True\<rparr>"
  let ?ctx = "context_WithTimeout aggregationTimeout"
  have d: "snd (FetchPriceSimulates ?env ?ctx ''TEST-SKU-TIMEOUT'') = Some DeadlineExceeded"
    by (simp add: FetchPriceSimulates_def simulatedCall_def selectCase_def timerAt_def
        doneAt_def context_WithTimeout_def aggregationTimeout_def Millisecond_def ctx_Err_def)
  have e: "snd (simulatedCall ?env ?ctx (200 * Millisecond) ''sku'' True VNil)
             = Some (Errorf ''backend server responded with 503'')"
    by (simp add: simulatedCall_def selectCase_def timerAt_def doneAt_def
        context_WithTimeout_def aggregationTimeout_def Millisecond_def)
  from executeService_timeout_flag
         [of ?env ?ctx "''price''" "''TEST-SKU-TIMEOUT''" FetchPriceSimulates] d
  have 1: "\<exists>se. Error (executeService ?env ?ctx ''price'' ''TEST-SKU-TIMEOUT''
                          FetchPriceSimulates) = Some se \<and> Timeout se"
    by blast
  from executeService_timeout_flag [of ?env ?ctx "''price''" "''sku''"
      "\<lambda>env ctx pid. simulatedCall env ctx (200 * Millisecond) pid True VNil"] e
  have 2: "\<exists>se. Error (executeService ?env ?ctx ''price'' ''sku''
             (\<lambda>env ctx pid. simulatedCall env ctx (200 * Millisecond) pid True VNil)) = Some se
           \<and> \<not> Timeout se"
    by auto
  from 1 d 2 show ?thesis by blast
qed

section \<open>Concrete rounds\<close>

lemmas backend_defs =
  FetchPriceSimulates_def FetchInventorySimulates_def FetchPromotionsSimulates_def
  simulatedCall_def selectCase_def timerAt_def doneAt_def context_WithTimeout_def
  aggregationTimeout_def Millisecond_def ctx_Err_def nominalEnv_def

lemma nominal_results:
  "workerResult ServiceMap nominalEnv ''SKU-1'' 0 =
     \<lparr>Key = ''price'', Value = VFloat64 (4999 / 100), Status = StatusSuccess, Error = None\<rparr>"
  "workerResult ServiceMap nominalEnv ''SKU-1'' (Suc 0) =
     \<lparr>Key = ''stock'', Value = VInt 120, Status = StatusSuccess, Error = None\<rparr>"
  "workerResult ServiceMap nominalEnv ''SKU-1'' 2 =
     \<lparr>Key = ''promotion'', Value = VString ''Buy 1 Get 1 Half Off!'', Status = StatusSuccess,
      Error = None\<rparr>"
  by (simp_all add: workerResult_def ServiceMap_def executeService_cases backend_defs)

lemma timeout_results:
  "workerResult ServiceMap nominalEnv ''TEST-SKU-TIMEOUT'' 0 =
     \<lparr>Key = ''price'', Value = VNil, Status = StatusTimeout,
      Error = Some \<lparr>ServiceKey = ''price'',
                Message = ''Service execution exceeded the global aggregation timeout'',
                Timeout = True, Err = DeadlineExceeded\<rparr>\<rparr>"
  "workerResult ServiceMap nominalEnv ''TEST-SKU-TIMEOUT'' (Suc 0) =
     \<lparr>Key = ''stock'', Value = VInt 120, Status = StatusSuccess, Error = None\<rparr>"
  "workerResult ServiceMap nominalEnv ''TEST-SKU-TIMEOUT'' 2 =
     \<lparr>Key = ''promotion'', Value = VString ''Buy 1 Get 1 Half Off!'', Status = StatusSuccess,
      Error = None\<rparr>"
  by (simp_all add: workerResult_def ServiceMap_def executeService_cases backend_defs)

lemma length_ServiceMap: "length ServiceMap = 3"
  by (simp add: ServiceMap_def)

lemma nominal_round:
  "FanOutAndAggregate ServiceMap nominalEnv ''SKU-1'' nominalSchedule =
     Returns (successSummary ''SKU-1'') None"
  by (simp add: FanOutAndAggregate_def nominalSchedule_def initState_def initSummary_def
      length_ServiceMap nominal_results fanIn_def Status_distinct successSummary_def)

lemma timeout_round:
  "FanOutAndAggregate ServiceMap nominalEnv ''TEST-SKU-TIMEOUT'' nominalSchedule =
     Returns priceTimeoutSummary None"
  by (simp add: FanOutAndAggregate_def nominalSchedule_def initState_def initSummary_def
      length_ServiceMap timeout_results fanIn_def Status_distinct
      Status_distinct [symmetric] fallbackPrice_def priceTimeoutSummary_def
      priceTimeoutError_def)

lemma empty_round:
  "FanOutAndAggregate [] env pid emptySchedule = Returns (initSummary pid) None"
  by (simp add: FanOutAndAggregate_def emptySchedule_def initState_def initSummary_def)

lemma distinct_ServiceMap: "distinct (map fst ServiceMap)"
  by (simp add: ServiceMap_def)

section \<open>What a returned summary holds\<close>

lemma Returns_run:
  "FanOutAndAggregate reg env pid es = Returns sm err \<longleftrightarrow>
     (\<exists>s. run reg env pid (initState reg pid) es = Some s \<and> mainPhase s = Returned
          \<and> sm = summary s \<and> err = None)"
  by (auto simp: FanOutAndAggregate_def split: option.splits MainPhase.splits)

lemma Panics_run:
  "FanOutAndAggregate reg env pid es = Panics \<longleftrightarrow>
     (\<exists>s. run reg env pid (initState reg pid) es = Some s \<and> mainPhase s = Panicked)"
  by (auto simp: FanOutAndAggregate_def split: option.splits MainPhase.splits)

lemma mset_errorsOf:
  "mset (errorsOf rs) = image_mset (the \<circ> Error) (filter_mset (\<lambda>r. Error r \<noteq> None) (mset rs))"
  by (induction rs) (auto split: option.splits)

lemma mset_errorsOf_cong: "mset rs = mset rs' \<Longrightarrow> mset (errorsOf rs) = mset (errorsOf rs')"
  by (simp add: mset_errorsOf)

lemma Returns_fanIn:
  assumes "FanOutAndAggregate reg env pid es = Returns sm err"
  shows "err = None \<and>
         (\<exists>rs sm'. mset rs = mset (outcomes reg env pid)
            \<and> fanInAll rs (initSummary pid, []) = Inr (sm', errorsOf rs)
            \<and> sm = sm'\<lparr>ServiceErrors := errorsOf rs\<rparr>)"
proof -
  from assms obtain s where s: "run reg env pid (initState reg pid) es = Some s"
    "mainPhase s = Returned" "sm = summary s" "err = None"
    by (auto simp: Returns_run)
  have inv: "roundInv reg env pid s" by (rule roundInv_reachable [OF s(1)])
  from returned_received [OF inv s(2)]
  have ms: "mset (received s) = mset (outcomes reg env pid)" by simp
  from inv s(2) obtain sm' where
    f: "fanInAll (received s) (initSummary pid, []) = Inr (sm', serviceErrors s)"
    and sm': "summary s = sm'\<lparr>ServiceErrors := serviceErrors s\<rparr>"
    by (auto simp: roundInv_def)
  from fanInAll_frame [OF f] have e: "serviceErrors s = errorsOf (received s)" by simp
  from ms f sm' e s(3,4) show ?thesis by auto
qed

lemma fieldOf_ServiceErrors [simp]:
  "fieldOf k (sm\<lparr>ServiceErrors := es\<rparr>) = fieldOf k sm"
  by (simp add: fieldOf_def)

lemma Returns_field:
  assumes ret: "FanOutAndAggregate reg env pid es = Returns sm err"
    and dk: "distinct (map fst reg)"
    and r: "r \<in> set (outcomes reg env pid)" and k: "Key r \<in> fieldKeys"
  shows "fieldOf (Key r) sm = settled r"
proof -
  from Returns_fanIn [OF ret] obtain rs sm' where
    ms: "mset rs = mset (outcomes reg env pid)"
    and f: "fanInAll rs (initSummary pid, []) = Inr (sm', errorsOf rs)"
    and sm: "sm = sm'\<lparr>ServiceErrors := errorsOf rs\<rparr>"
    by blast
  from ms have "mset (map Key rs) = mset (map Key (outcomes reg env pid))"
    by (metis mset_map)
  then have "mset (map Key rs) = mset (map fst reg)" by simp
  with dk have d: "distinct (map Key rs)" by (metis mset_eq_imp_distinct_iff)
  from ms r have "r \<in> set rs" by (metis mset_eq_setD)
  from fanInAll_field_present [OF f d this k] show ?thesis by (simp add: sm)
qed

lemma Returns_field_absent:
  assumes ret: "FanOutAndAggregate reg env pid es = Returns sm err"
    and k: "k \<notin> fst ` set reg"
  shows "fieldOf k sm = fieldOf k (initSummary pid)"
proof -
  from Returns_fanIn [OF ret] obtain rs sm' where
    ms: "mset rs = mset (outcomes reg env pid)"
    and f: "fanInAll rs (initSummary pid, []) = Inr (sm', errorsOf rs)"
    and sm: "sm = sm'\<lparr>ServiceErrors := errorsOf rs\<rparr>"
    by blast
  from ms have "set (map Key rs) = set (map Key (outcomes reg env pid))"
    by (metis mset_map mset_eq_setD)
  then have "Key ` set rs = fst ` set reg" by simp
  with k have "\<forall>r \<in> set rs. Key r \<noteq> k" by blast
  from fanInAll_field_absent [OF f this] show ?thesis by (simp add: sm)
qed

lemma Returns_frame:
  assumes ret: "FanOutAndAggregate reg env pid es = Returns sm err"
  shows "ProductID sm = pid \<and> TotalTimeMs sm = 0
         \<and> mset (ServiceErrors sm) = mset (errorsOf (outcomes reg env pid))"
proof -
  from Returns_fanIn [OF ret] obtain rs sm' where
    ms: "mset rs = mset (outcomes reg env pid)"
    and f: "fanInAll rs (initSummary pid, []) = Inr (sm', errorsOf rs)"
    and sm: "sm = sm'\<lparr>ServiceErrors := errorsOf rs\<rparr>"
    by blast
  from fanInAll_frame [OF f] mset_errorsOf_cong [OF ms] show ?thesis
    by (simp add: sm initSummary_def)
qed

lemma outcomes_member:
  "(key, fn) \<in> set reg \<Longrightarrow>
   executeService (env key) (context_WithTimeout aggregationTimeout) key pid fn
     \<in> set (outcomes reg env pid)"
  by (force simp: outcomes_def)

lemma executeService_Status:
  "Status (executeService env ctx key pid fn) = StatusSuccess
     \<and> Error (executeService env ctx key pid fn) = None
   \<or> (Status (executeService env ctx key pid fn) = StatusTimeout
        \<or> Status (executeService env ctx key pid fn) = StatusError)
     \<and> Error (executeService env ctx key pid fn) \<noteq> None"
  by (simp add: executeService_cases split: option.splits)

lemma errorsOf_member: "r \<in> set rs \<Longrightarrow> Error r = Some e \<Longrightarrow> e \<in> set (errorsOf rs)"
  by (induction rs) (auto split: option.splits)

section \<open>The fallback policy\<close>



section \<open>Produced and received results\<close>

lemma closed_produced:
  assumes inv: "roundInv reg env pid s" and cl: "chanClosed s"
  shows "(\<forall>p \<in> set (workers s). p = Finished)
         \<and> mset (received s @ resultChan s) = mset (outcomes reg env pid)"
proof -
  from inv cl have fin: "\<forall>p \<in> set (workers s). p = Finished"
    and len: "length (workers s) = length reg"
    by (auto simp: roundInv_def)
  from inv obtain order where ord: "sentOrder reg env pid s order"
    by (auto simp: roundInv_def)
  have "\<And>i. i < length reg \<Longrightarrow> workers s ! i = Finished"
    using fin len nth_mem by metis
  then have "{i. i < length reg \<and> workers s ! i \<noteq> Running} = {0..<length reg}"
    by auto
  then have "set order = set [0..<length reg]"
    using ord by (simp add: sentOrder_def)
  moreover have "distinct order" using ord by (simp add: sentOrder_def)
  ultimately have "mset order = mset [0..<length reg]"
    by (metis distinct_upt set_eq_iff_mset_eq_distinct)
  then have "mset (map (workerResult reg env pid) order)
               = mset (map (workerResult reg env pid) [0..<length reg])"
    by (metis mset_map)
  moreover have "received s @ resultChan s = map (workerResult reg env pid) order"
    using ord by (simp add: sentOrder_def)
  ultimately show ?thesis using fin by (simp add: outcomes_workerResult)
qed

lemma sent_count:
  assumes inv: "roundInv reg env pid s"
  shows "length (received s @ resultChan s)
           = length (filter (\<lambda>p. p \<noteq> Running) (workers s))"
proof -
  from inv have len: "length (workers s) = length reg" by (simp add: roundInv_def)
  from inv obtain order where ord: "sentOrder reg env pid s order"
    by (auto simp: roundInv_def)
  then have d: "distinct order"
    and st: "set order = {i. i < length (workers s) \<and> workers s ! i \<noteq> Running}"
    and eq: "received s @ resultChan s = map (workerResult reg env pid) order"
    by (auto simp: sentOrder_def len)
  have "length (received s @ resultChan s) = length order" by (simp add: eq)
  also have "\<dots> = card (set order)" using d by (simp add: distinct_card)
  also have "\<dots> = length (filter (\<lambda>p. p \<noteq> Running) (workers s))"
    by (simp only: st length_filter_conv_card)
  finally show ?thesis .
qed

lemma workerResult_in_outcomes:
  "i < length reg \<Longrightarrow> workerResult reg env pid i \<in> set (outcomes reg env pid)"
proof -
  assume "i < length reg"
  then have "workerResult reg env pid i
               \<in> set (map (workerResult reg env pid) [0..<length reg])"
    by simp
  then show ?thesis by (simp only: outcomes_workerResult)
qed

lemma produced_in_outcomes:
  assumes inv: "roundInv reg env pid s"
  shows "set (received s @ resultChan s) \<subseteq> set (outcomes reg env pid)"
proof
  fix r assume r: "r \<in> set (received s @ resultChan s)"
  from inv obtain order where ord: "sentOrder reg env pid s order"
    by (auto simp: roundInv_def)
  then have sub: "set order \<subseteq> {..<length reg}"
    and eq: "received s @ resultChan s = map (workerResult reg env pid) order"
    by (auto simp: sentOrder_def)
  from r eq obtain i where "i \<in> set order" "r = workerResult reg env pid i"
    by auto
  with sub show "r \<in> set (outcomes reg env pid)"
    by (auto intro: workerResult_in_outcomes)
qed

lemma no_panic:
  assumes inv: "roundInv reg env pid s"
    and wt: "\<forall>r \<in> set (outcomes reg env pid). wellTyped r"
  shows "mainPhase s \<noteq> Panicked"
proof
  assume "mainPhase s = Panicked"
  with inv obtain p where p: "fanInAll (received s) (initSummary pid, []) = Inl p"
    by (auto simp: roundInv_def)
  from produced_in_outcomes [OF inv] wt have "\<forall>r \<in> set (received s). wellTyped r"
    by auto
  then obtain acc' where "fanInAll (received s) (initSummary pid, []) = Inr acc'"
    using fanInAll_wellTyped [of "received s" "(initSummary pid, [])"] by blast
  with p show False by simp
qed

lemma completion_Returned:
  assumes inv: "roundInv reg env pid s"
    and wt: "\<forall>r \<in> set (outcomes reg env pid). wellTyped r"
    and np: "mainPhase s \<noteq> Panicked"
  shows "\<exists>es s'. run reg env pid s es = Some s' \<and> mainPhase s' = Returned"
proof (cases "mainPhase s = Draining")
  case True
  from completion [OF inv True] obtain es s' where
    r: "run reg env pid s es = Some s'" and nd: "mainPhase s' \<noteq> Draining"
    by blast
  from no_panic [OF roundInv_run [OF inv r] wt] nd have "mainPhase s' = Returned"
    by (cases "mainPhase s'") auto
  with r show ?thesis by blast
next
  case False
  with np have "mainPhase s = Returned" by (cases "mainPhase s") auto
  then have "run reg env pid s [] = Some s \<and> mainPhase s = Returned" by simp
  then show ?thesis by blast
qed


section \<open>Every outcome exactly once\<close>



section \<open>Bounded completion\<close>

lemma send_enabled:
  assumes inv: "roundInv reg env pid s"
    and i: "i < length reg" "workers s ! i = Running"
  shows "step reg env pid s (WorkerSend i) \<noteq> None"
proof -
  from inv have len: "length (workers s) = length reg" by (simp add: roundInv_def)
  from inv obtain order where ord: "sentOrder reg env pid s order"
    by (auto simp: roundInv_def)
  from sentOrder_room [OF ord i] have "length order < length reg" .
  moreover from ord have "received s @ resultChan s = map (workerResult reg env pid) order"
    by (simp add: sentOrder_def)
  then have "length (received s @ resultChan s) = length order"
    by (simp only: length_map)
  ultimately have "length (resultChan s) < length reg" by simp
  with i len show ?thesis by simp
qed

lemma done_enabled:
  assumes inv: "roundInv reg env pid s"
    and i: "i < length reg" "workers s ! i = Sent"
  shows "step reg env pid s (WorkerDone i) \<noteq> None"
proof -
  from inv have "length (workers s) = length reg" by (simp add: roundInv_def)
  with i show ?thesis by simp
qed

lemma close_enabled:
  assumes inv: "roundInv reg env pid s"
    and fin: "\<forall>p \<in> set (workers s). p = Finished" and ncl: "\<not> chanClosed s"
  shows "step reg env pid s JoinClose \<noteq> None"
proof -
  from inv have "wg s = int (length (filter (\<lambda>p. p \<noteq> Finished) (workers s)))"
    by (simp add: roundInv_def)
  with fin have "wg s = 0" using all_Finished_iff [of "workers s"] by simp
  with ncl show ?thesis by simp
qed

lemma registryOf_shipped: "registryOf shippedBackends = ServiceMap"
  by (auto simp: registryOf_def shippedBackends_def ServiceMap_def simFn_def
      FetchPriceSimulates_def FetchInventorySimulates_def FetchPromotionsSimulates_def
      fun_eq_iff)

lemma length_registryOf [simp]: "length (registryOf sreg) = length sreg"
  by (simp add: registryOf_def)

lemma fst_registryOf: "i < length sreg \<Longrightarrow> fst (registryOf sreg ! i) = fst (sreg ! i)"
  by (simp add: registryOf_def split: prod.splits)

lemma runAt_run:
  "runAt sreg env pid sc es = Some sc' \<Longrightarrow>
   run (registryOf sreg) env pid (fst sc) es = Some (fst sc')"
proof (induction es arbitrary: sc)
  case Nil
  then show ?case by simp
next
  case (Cons e es)
  then obtain s1 where s1: "step (registryOf sreg) env pid (fst sc) e = Some s1"
    and r: "runAt sreg env pid (s1, tick (returnedAt sreg env pid) (snd sc) e) es = Some sc'"
    by (auto split: option.splits)
  from Cons.IH [OF r] s1 show ?case by simp
qed

lemma run_runAt:
  "run (registryOf sreg) env pid s es = Some s' \<Longrightarrow>
   \<exists>c'. runAt sreg env pid (s, c) es = Some (s', c')"
proof (induction es arbitrary: s c)
  case Nil
  then show ?case by simp
next
  case (Cons e es)
  then obtain s1 where s1: "step (registryOf sreg) env pid s e = Some s1"
    and r: "run (registryOf sreg) env pid s1 es = Some s'"
    by (auto split: option.splits)
  from Cons.IH [OF r, of "tick (returnedAt sreg env pid) c e"] s1 show ?case by simp
qed

lemma simulatedCall_branches:
  "(selectCase cenv ctx delay = TimerFired \<longrightarrow>
      simulatedCall cenv ctx delay p fail v
        = (if fail then (VNil, Some (Errorf ''backend server responded with 503''))
           else (v, None))
      \<and> simulatedCallAt cenv ctx delay p fail v = timerAt cenv delay
      \<and> timerAt cenv delay \<le> doneAt cenv ctx)
   \<and> (selectCase cenv ctx delay = ContextDone \<longrightarrow>
      simulatedCall cenv ctx delay p fail v = (VNil, Some DeadlineExceeded)
      \<and> simulatedCallAt cenv ctx delay p fail v = doneAt cenv ctx
      \<and> doneAt cenv ctx \<le> timerAt cenv delay)"
  by (auto simp: simulatedCall_def simulatedCallAt_def ctx_Err_def selectCase_def
      split: if_splits)

lemma simulatedCallAt_bounds:
  "started cenv \<le> simulatedCallAt cenv ctx delay p fail v
   \<and> simulatedCallAt cenv ctx delay p fail v \<le> max (started cenv) (deadline ctx)"
proof (cases "selectCase cenv ctx delay")
  case TimerFired
  with simulatedCall_branches [of cenv ctx delay p fail v]
  have "simulatedCallAt cenv ctx delay p fail v = timerAt cenv delay"
    "timerAt cenv delay \<le> doneAt cenv ctx"
    by simp_all
  then show ?thesis by (simp add: timerAt_def doneAt_def)
next
  case ContextDone
  with simulatedCall_branches [of cenv ctx delay p fail v]
  have "simulatedCallAt cenv ctx delay p fail v = doneAt cenv ctx" by simp
  then show ?thesis by (simp add: doneAt_def)
qed

lemma returnedAt_bounds:
  "started (env (fst (sreg ! i))) \<le> returnedAt sreg env pid i
   \<and> returnedAt sreg env pid i \<le> max (started (env (fst (sreg ! i)))) (450 * Millisecond)"
  using simulatedCallAt_bounds
    [of "env (fst (sreg ! i))" "context_WithTimeout aggregationTimeout"]
  by (simp add: returnedAt_def simAt_def context_WithTimeout_def aggregationTimeout_def)

lemma tick_below:
  assumes "clocksBelow b c" and "\<And>i. e = WorkerSend i \<or> e = WorkerDone i \<Longrightarrow> ret i \<le> b"
  shows "clocksBelow b (tick ret c e)"
proof (cases e)
  case (WorkerSend i)
  with assms show ?thesis by (simp add: clocksBelow_def)
next
  case (WorkerDone i)
  with assms show ?thesis by (simp add: clocksBelow_def)
next
  case JoinClose
  with assms(1) show ?thesis by (simp add: clocksBelow_def)
next
  case MainRecv
  with assms(1) show ?thesis by (cases "sentAt c") (simp_all add: clocksBelow_def)
next
  case MainReturn
  with assms(1) show ?thesis by (simp add: clocksBelow_def)
qed

lemma step_worker_index:
  assumes "step reg env pid s e = Some s'" and "e = WorkerSend i \<or> e = WorkerDone i"
  shows "i < length (workers s)"
  using assms by (auto split: if_splits)

lemma runAt_below:
  assumes "runAt sreg env pid sc es = Some sc'"
    and "roundInv (registryOf sreg) env pid (fst sc)"
    and "clocksBelow b (snd sc)"
    and "\<forall>i < length sreg. returnedAt sreg env pid i \<le> b"
  shows "clocksBelow b (snd sc')"
  using assms(1-3)
proof (induction es arbitrary: sc)
  case Nil
  then show ?case by simp
next
  case (Cons e es)
  then obtain s1 where s1: "step (registryOf sreg) env pid (fst sc) e = Some s1"
    and r: "runAt sreg env pid (s1, tick (returnedAt sreg env pid) (snd sc) e) es = Some sc'"
    by (auto split: option.splits)
  from Cons.prems(2) have len: "length (workers (fst sc)) = length sreg"
    by (simp add: roundInv_def)
  have "\<And>i. e = WorkerSend i \<or> e = WorkerDone i \<Longrightarrow> returnedAt sreg env pid i \<le> b"
    using step_worker_index [OF s1] len assms(4) by simp
  with Cons.prems(3) have b1: "clocksBelow b (tick (returnedAt sreg env pid) (snd sc) e)"
    by (rule tick_below)
  have i1: "roundInv (registryOf sreg) env pid s1"
    by (rule roundInv_step [OF Cons.prems(2) s1])
  from Cons.IH [OF r] i1 b1 show ?case by simp
qed

lemma sentOrder_WorkerSend:
  assumes inv: "roundInv reg env pid s" and ord: "sentOrder reg env pid s order"
    and st: "step reg env pid s (WorkerSend i) = Some s'"
  shows "sentOrder reg env pid s' (order @ [i])"
proof -
  from st have g: "i < length (workers s)" "workers s ! i = Running"
    and s': "s' = s\<lparr>workers := (workers s)[i := Sent],
                   resultChan := resultChan s @ [workerResult reg env pid i]\<rparr>"
    by (auto split: if_splits)
  from inv have len: "length (workers s) = length reg" by (simp add: roundInv_def)
  have inotin: "i \<notin> set order" using ord g by (simp add: sentOrder_def)
  have sets: "{j. j < length reg \<and> (workers s)[i := Sent] ! j \<noteq> Running}
                = insert i {j. j < length reg \<and> workers s ! j \<noteq> Running}"
    using g len by (auto simp: nth_list_update)
  show ?thesis using ord inotin sets by (simp add: sentOrder_def s')
qed

lemma sentOrder_WorkerDone:
  assumes inv: "roundInv reg env pid s" and ord: "sentOrder reg env pid s order"
    and st: "step reg env pid s (WorkerDone i) = Some s'"
  shows "sentOrder reg env pid s' order"
proof -
  from st have g: "i < length (workers s)" "workers s ! i = Sent"
    and s': "s' = s\<lparr>workers := (workers s)[i := Finished], wg := wg s - 1\<rparr>"
    by (auto split: if_splits)
  from inv have len: "length (workers s) = length reg" by (simp add: roundInv_def)
  have sets: "{j. j < length reg \<and> (workers s)[i := Finished] ! j \<noteq> Running}
                = {j. j < length reg \<and> workers s ! j \<noteq> Running}"
    using g len by (auto simp: nth_list_update)
  show ?thesis using ord sets by (simp add: sentOrder_def s')
qed

lemma received_workers_step:
  assumes "step reg env pid s e = Some s'"
  shows "(case e of
            MainRecv \<Rightarrow> (\<exists>res rest. resultChan s = res # rest \<and> resultChan s' = rest
                           \<and> received s' = received s @ [res] \<and> workers s' = workers s)
          | WorkerSend i \<Rightarrow> received s' = received s
          | WorkerDone i \<Rightarrow> received s' = received s \<and> resultChan s' = resultChan s
          | _ \<Rightarrow> received s' = received s \<and> resultChan s' = resultChan s
                   \<and> workers s' = workers s)"
proof (cases e)
  case (WorkerSend i)
  with assms show ?thesis by (auto split: if_splits)
next
  case (WorkerDone i)
  with assms show ?thesis by (auto split: if_splits)
next
  case JoinClose
  with assms show ?thesis by (auto split: if_splits)
next
  case MainRecv
  with assms obtain res rest where ch: "resultChan s = res # rest"
    and dr: "mainPhase s = Draining"
    by (auto split: if_splits list.splits)
  show ?thesis
  proof (cases "fanIn res (summary s, serviceErrors s)")
    case (Inl p)
    with assms MainRecv ch dr show ?thesis by auto
  next
    case (Inr acc)
    with assms MainRecv ch dr show ?thesis by (cases acc) auto
  qed
next
  case MainReturn
  with assms show ?thesis by (auto split: if_splits)
qed

lemma timedInv_step:
  assumes inv: "timedInv sreg env pid (s, c)"
    and st: "step (registryOf sreg) env pid s e = Some s'"
  shows "timedInv sreg env pid (s', tick (returnedAt sreg env pid) c e)"
proof -
  let ?reg = "registryOf sreg"
  let ?ret = "returnedAt sreg env pid"
  from inv have ri: "roundInv ?reg env pid s" by (simp add: timedInv_def)
  from inv obtain order where co: "clocksOrder sreg env pid s c order"
    by (auto simp: timedInv_def)
  then have ord: "sentOrder ?reg env pid s order"
    and sa: "sentAt c = map ?ret (drop (length (received s)) order)"
    and ma: "list_all (\<lambda>j. ?ret j \<le> mainAt c) (take (length (received s)) order)"
    by (simp_all add: clocksOrder_def)
  from ord have eq: "received s @ resultChan s = map (workerResult ?reg env pid) order"
    by (simp add: sentOrder_def)
  then have "length (received s @ resultChan s) = length order" by (simp only: length_map)
  then have lo: "length (received s) + length (resultChan s) = length order" by simp
  have ri': "roundInv ?reg env pid s'" by (rule roundInv_step [OF ri st])
  note rw = received_workers_step [OF st]
  have "\<exists>order'. clocksOrder sreg env pid s' (tick ?ret c e) order'"
  proof (cases e)
    case (WorkerSend i)
    with rw have r: "received s' = received s" by simp
    from sentOrder_WorkerSend [OF ri ord] st WorkerSend
    have o': "sentOrder ?reg env pid s' (order @ [i])" by simp
    have "clocksOrder sreg env pid s' (tick ?ret c e) (order @ [i])"
      using o' sa ma lo by (simp add: clocksOrder_def WorkerSend r)
    then show ?thesis by blast
  next
    case (WorkerDone i)
    with rw have r: "received s' = received s" by simp
    from sentOrder_WorkerDone [OF ri ord] st WorkerDone
    have o': "sentOrder ?reg env pid s' order" by simp
    have "clocksOrder sreg env pid s' (tick ?ret c e) order"
      using o' sa ma by (simp add: clocksOrder_def WorkerDone r)
    then show ?thesis by blast
  next
    case JoinClose
    with rw have r: "received s' = received s" "resultChan s' = resultChan s"
      "workers s' = workers s"
      by simp_all
    have o': "sentOrder ?reg env pid s' order" using ord r by (simp add: sentOrder_def)
    have "clocksOrder sreg env pid s' (tick ?ret c e) order"
      using o' sa ma by (simp add: clocksOrder_def JoinClose r)
    then show ?thesis by blast
  next
    case MainReturn
    with rw have r: "received s' = received s" "resultChan s' = resultChan s"
      "workers s' = workers s"
      by simp_all
    have o': "sentOrder ?reg env pid s' order" using ord r by (simp add: sentOrder_def)
    have "list_all (\<lambda>j. ?ret j \<le> max (mainAt c) (closedAt c))
            (take (length (received s)) order)"
      using ma by (auto simp: list_all_iff)
    then have "clocksOrder sreg env pid s' (tick ?ret c e) order"
      using o' sa by (simp add: clocksOrder_def MainReturn r)
    then show ?thesis by blast
  next
    case MainRecv
    with rw obtain res rest where ch: "resultChan s = res # rest"
      and r: "resultChan s' = rest" "received s' = received s @ [res]"
        "workers s' = workers s"
      by auto
    let ?k = "length (received s)"
    from lo ch have k: "?k < length order" by simp
    have o': "sentOrder ?reg env pid s' order"
      using ord ch r by (simp add: sentOrder_def)
    from k have dr: "drop ?k order = order ! ?k # drop (Suc ?k) order"
      by (simp add: Cons_nth_drop_Suc)
    from k have tk: "take (Suc ?k) order = take ?k order @ [order ! ?k]"
      by (simp add: take_Suc_conv_app_nth)
    from sa dr have sa': "sentAt c = ?ret (order ! ?k) # map ?ret (drop (Suc ?k) order)"
      by simp
    have ma': "list_all (\<lambda>j. ?ret j \<le> max (mainAt c) (?ret (order ! ?k)))
                 (take (Suc ?k) order)"
      using ma by (auto simp: tk list_all_iff)
    have "clocksOrder sreg env pid s' (tick ?ret c e) order"
      using o' sa' ma' by (simp add: clocksOrder_def MainRecv r)
    then show ?thesis by blast
  qed
  with ri' show ?thesis by (simp add: timedInv_def)
qed

lemma timedInv_runAt:
  "timedInv sreg env pid sc \<Longrightarrow> runAt sreg env pid sc es = Some sc' \<Longrightarrow>
   timedInv sreg env pid sc'"
proof (induction es arbitrary: sc)
  case Nil
  then show ?case by simp
next
  case (Cons e es)
  then obtain s1 where s1: "step (registryOf sreg) env pid (fst sc) e = Some s1"
    and r: "runAt sreg env pid (s1, tick (returnedAt sreg env pid) (snd sc) e) es = Some sc'"
    by (auto split: option.splits)
  from Cons.prems(1) have "timedInv sreg env pid (fst sc, snd sc)" by simp
  from timedInv_step [OF this s1] Cons.IH [OF _ r] show ?case by simp
qed

lemma timedInv_init: "timedInv sreg env pid (initTimed sreg pid)"
proof -
  have "clocksOrder sreg env pid (initState (registryOf sreg) pid) initClocks []"
    by (simp add: clocksOrder_def sentOrder_def initState_def initClocks_def)
  then show ?thesis
    using roundInv_initState [of "registryOf sreg" env pid]
    by (auto simp: timedInv_def initTimed_def)
qed

lemma returned_after_calls:
  assumes inv: "timedInv sreg env pid (s, c)" and ret: "mainPhase s = Returned"
  shows "\<forall>i < length sreg. returnedAt sreg env pid i \<le> mainAt c"
proof (intro allI impI)
  fix i assume i: "i < length sreg"
  let ?reg = "registryOf sreg"
  from inv have ri: "roundInv ?reg env pid s" by (simp add: timedInv_def)
  from inv obtain order where co: "clocksOrder sreg env pid s c order"
    by (auto simp: timedInv_def)
  then have ord: "sentOrder ?reg env pid s order"
    and ma: "list_all (\<lambda>j. returnedAt sreg env pid j \<le> mainAt c)
               (take (length (received s)) order)"
    by (simp_all add: clocksOrder_def)
  from ri ret have cl: "chanClosed s" and em: "resultChan s = []"
    by (auto simp: roundInv_def)
  from ri cl have fin: "\<forall>p \<in> set (workers s). p = Finished"
    and len: "length (workers s) = length sreg"
    by (auto simp: roundInv_def)
  from ord em have "received s = map (workerResult ?reg env pid) order"
    by (simp add: sentOrder_def)
  then have "length (received s) = length order" by (simp only: length_map)
  with ma have all: "list_all (\<lambda>j. returnedAt sreg env pid j \<le> mainAt c) order" by simp
  from fin len i have "workers s ! i = Finished" using nth_mem by metis
  with ord i have "i \<in> set order" by (simp add: sentOrder_def)
  with all show "returnedAt sreg env pid i \<le> mainAt c" by (simp add: list_all_iff)
qed

lemma step_runAt:
  assumes "step (registryOf sreg) env pid s e \<noteq> None"
  shows "\<exists>sc'. runAt sreg env pid (s, c) [e] = Some sc'"
proof -
  from assms obtain s' where "step (registryOf sreg) env pid s e = Some s'" by blast
  then have "runAt sreg env pid (s, c) [e] = Some (s', tick (returnedAt sreg env pid) c e)"
    by simp
  then show ?thesis by blast
qed

text \<open>
  Claim C5. For every round of simulated backends, whatever their configured delays,
  failure flags and values, and under every schedule: the schedule is a run of the
  engine and has at most \<open>3N + 2\<close> steps; while the loop is draining some goroutine
  can move; a running worker can always send, a worker that has sent can always finish,
  and the join goroutine can close the channel once every worker has finished; so the
  round can always be run on until the loop has ended. Every backend call returns, no
  earlier than it started and no later than the 450 ms deadline or, if the runtime
  started it later than that, its start. Hence, when every call is started no later than
  the deadline plus a margin, the calling goroutine's clock never passes the deadline
  plus that margin; and a round that has returned has returned what
  \<open>FanOutAndAggregate\<close> returns, no earlier than any of its backend calls returned.
  A simulated call ends in one of two ways: at its timer, if the timer fires no later
  than \<open>Done\<close> is ready, with its value or the 503 error; or when \<open>Done\<close> is ready,
  with \<open>context.DeadlineExceeded\<close>.
\<close>

theorem bounded_completion:
  assumes "runAt sreg env pid (initTimed sreg pid) es = Some (s, c)"
  shows
    "run (registryOf sreg) env pid (initState (registryOf sreg) pid) es = Some s
     \<and> length es \<le> 3 * length sreg + 2
     \<and> (mainPhase s = Draining \<longrightarrow>
          (\<exists>e sc'. runAt sreg env pid (s, c) [e] = Some sc'))
     \<and> (\<forall>i < length sreg. workers s ! i = Running \<longrightarrow>
          (\<exists>sc'. runAt sreg env pid (s, c) [WorkerSend i] = Some sc'))
     \<and> (\<forall>i < length sreg. workers s ! i = Sent \<longrightarrow>
          (\<exists>sc'. runAt sreg env pid (s, c) [WorkerDone i] = Some sc'))
     \<and> ((\<forall>p \<in> set (workers s). p = Finished) \<and> \<not> chanClosed s \<longrightarrow>
          (\<exists>sc'. runAt sreg env pid (s, c) [JoinClose] = Some sc'))
     \<and> (\<exists>es' s' c'. runAt sreg env pid (s, c) es' = Some (s', c')
            \<and> mainPhase s' \<noteq> Draining)
     \<and> (\<forall>i < length sreg.
          started (env (fst (sreg ! i))) \<le> returnedAt sreg env pid i
          \<and> returnedAt sreg env pid i
               \<le> max (started (env (fst (sreg ! i)))) (450 * Millisecond))
     \<and> (0 \<le> margin
          \<and> (\<forall>i < length sreg. started (env (fst (sreg ! i))) \<le> 450 * Millisecond + margin)
          \<longrightarrow> mainAt c \<le> 450 * Millisecond + margin)
     \<and> (mainPhase s = Returned \<longrightarrow>
          FanOutAndAggregate (registryOf sreg) env pid es = Returns (summary s) None
          \<and> (\<forall>i < length sreg. returnedAt sreg env pid i \<le> mainAt c))
     \<and> (selectCase cenv ctx delay = TimerFired \<longrightarrow>
          simulatedCall cenv ctx delay p fail v
            = (if fail then (VNil, Some (Errorf ''backend server responded with 503''))
               else (v, None))
          \<and> simulatedCallAt cenv ctx delay p fail v = timerAt cenv delay
          \<and> timerAt cenv delay \<le> doneAt cenv ctx)
     \<and> (selectCase cenv ctx delay = ContextDone \<longrightarrow>
          simulatedCall cenv ctx delay p fail v = (VNil, Some DeadlineExceeded)
          \<and> simulatedCallAt cenv ctx delay p fail v = doneAt cenv ctx
          \<and> doneAt cenv ctx \<le> timerAt cenv delay)"
proof -
  let ?reg = "registryOf sreg"
  have r: "run ?reg env pid (initState ?reg pid) es = Some s"
    using runAt_run [OF assms] by (simp add: initTimed_def)
  have inv: "roundInv ?reg env pid s" by (rule roundInv_reachable [OF r])
  have tinv: "timedInv sreg env pid (s, c)"
    by (rule timedInv_runAt [OF timedInv_init assms])
  have c2: "length es \<le> 3 * length sreg + 2"
    using run_weight [OF r] by (simp add: weight_initState)
  have c3: "mainPhase s = Draining \<longrightarrow> (\<exists>e sc'. runAt sreg env pid (s, c) [e] = Some sc')"
  proof
    assume "mainPhase s = Draining"
    from progress [OF inv this] obtain e s' where "step ?reg env pid s e = Some s'" by blast
    then have "runAt sreg env pid (s, c) [e]
                 = Some (s', tick (returnedAt sreg env pid) c e)"
      by simp
    then show "\<exists>e sc'. runAt sreg env pid (s, c) [e] = Some sc'" by blast
  qed
  have c4: "\<forall>i < length sreg. workers s ! i = Running \<longrightarrow>
          (\<exists>sc'. runAt sreg env pid (s, c) [WorkerSend i] = Some sc')"
  proof (intro allI impI)
    fix i assume "i < length sreg" "workers s ! i = Running"
    then have "step ?reg env pid s (WorkerSend i) \<noteq> None"
      by (intro send_enabled [OF inv]) simp_all
    then show "\<exists>sc'. runAt sreg env pid (s, c) [WorkerSend i] = Some sc'"
      by (rule step_runAt)
  qed
  have c5: "\<forall>i < length sreg. workers s ! i = Sent \<longrightarrow>
          (\<exists>sc'. runAt sreg env pid (s, c) [WorkerDone i] = Some sc')"
  proof (intro allI impI)
    fix i assume "i < length sreg" "workers s ! i = Sent"
    then have "step ?reg env pid s (WorkerDone i) \<noteq> None"
      by (intro done_enabled [OF inv]) simp_all
    then show "\<exists>sc'. runAt sreg env pid (s, c) [WorkerDone i] = Some sc'"
      by (rule step_runAt)
  qed
  have c6: "(\<forall>p \<in> set (workers s). p = Finished) \<and> \<not> chanClosed s \<longrightarrow>
          (\<exists>sc'. runAt sreg env pid (s, c) [JoinClose] = Some sc')"
  proof
    assume "(\<forall>p \<in> set (workers s). p = Finished) \<and> \<not> chanClosed s"
    then have "step ?reg env pid s JoinClose \<noteq> None"
      using close_enabled [OF inv] by blast
    then show "\<exists>sc'. runAt sreg env pid (s, c) [JoinClose] = Some sc'"
      by (rule step_runAt)
  qed
  have c7: "\<exists>es' s' c'. runAt sreg env pid (s, c) es' = Some (s', c')
            \<and> mainPhase s' \<noteq> Draining"
  proof (cases "mainPhase s = Draining")
    case True
    from completion [OF inv True] obtain es' s' where
      "run ?reg env pid s es' = Some s'" and nd: "mainPhase s' \<noteq> Draining"
      by blast
    from run_runAt [OF this(1), of c] nd show ?thesis by blast
  next
    case False
    then have "runAt sreg env pid (s, c) [] = Some (s, c) \<and> mainPhase s \<noteq> Draining"
      by simp
    then show ?thesis by blast
  qed
  have c8: "\<forall>i < length sreg.
          started (env (fst (sreg ! i))) \<le> returnedAt sreg env pid i
          \<and> returnedAt sreg env pid i
               \<le> max (started (env (fst (sreg ! i)))) (450 * Millisecond)"
    using returnedAt_bounds by blast
  have c9: "0 \<le> margin
          \<and> (\<forall>i < length sreg. started (env (fst (sreg ! i))) \<le> 450 * Millisecond + margin)
          \<longrightarrow> mainAt c \<le> 450 * Millisecond + margin"
  proof
    assume a: "0 \<le> margin
          \<and> (\<forall>i < length sreg. started (env (fst (sreg ! i))) \<le> 450 * Millisecond + margin)"
    let ?b = "450 * Millisecond + margin"
    have le: "\<forall>i < length sreg. returnedAt sreg env pid i \<le> ?b"
    proof (intro allI impI)
      fix i assume i: "i < length sreg"
      from returnedAt_bounds [of env sreg i pid]
      have "returnedAt sreg env pid i
              \<le> max (started (env (fst (sreg ! i)))) (450 * Millisecond)"
        by simp
      also have "\<dots> \<le> ?b" using a i by (simp add: Millisecond_def)
      finally show "returnedAt sreg env pid i \<le> ?b" .
    qed
    have b0: "clocksBelow ?b (snd (initTimed sreg pid))"
      using a by (simp add: clocksBelow_def initTimed_def initClocks_def Millisecond_def)
    have i0: "roundInv ?reg env pid (fst (initTimed sreg pid))"
      by (simp add: initTimed_def roundInv_initState)
    from runAt_below [OF assms i0 b0 le] show "mainAt c \<le> ?b"
      by (simp add: clocksBelow_def)
  qed
  have c10: "mainPhase s = Returned \<longrightarrow>
          FanOutAndAggregate (registryOf sreg) env pid es = Returns (summary s) None
          \<and> (\<forall>i < length sreg. returnedAt sreg env pid i \<le> mainAt c)"
    using returned_after_calls [OF tinv] r by (simp add: Returns_run)
  note br = simulatedCall_branches [of cenv ctx delay p fail v]
  from br have c11: "selectCase cenv ctx delay = TimerFired \<longrightarrow>
          simulatedCall cenv ctx delay p fail v
            = (if fail then (VNil, Some (Errorf ''backend server responded with 503''))
               else (v, None))
          \<and> simulatedCallAt cenv ctx delay p fail v = timerAt cenv delay
          \<and> timerAt cenv delay \<le> doneAt cenv ctx"
    by (rule conjunct1)
  from br have c12: "selectCase cenv ctx delay = ContextDone \<longrightarrow>
          simulatedCall cenv ctx delay p fail v = (VNil, Some DeadlineExceeded)
          \<and> simulatedCallAt cenv ctx delay p fail v = doneAt cenv ctx
          \<and> doneAt cenv ctx \<le> timerAt cenv delay"
    by (rule conjunct2)
  show ?thesis
    by (intro conjI) (rule r c2 c3 c4 c5 c6 c7 c8 c9 c10 c11 c12)+
qed

lemma returnedAt_price_timeout:
  "returnedAt shippedBackends nominalEnv ''TEST-SKU-TIMEOUT'' 0 = 450 * Millisecond"
  by (simp add: returnedAt_def shippedBackends_def simAt_def simulatedCallAt_def
      simulatedCall_def selectCase_def timerAt_def doneAt_def context_WithTimeout_def
      aggregationTimeout_def Millisecond_def ctx_Err_def nominalEnv_def)

theorem bounded_completion_witness:
  "registryOf shippedBackends = ServiceMap
   \<and> simDelay (snd (shippedBackends ! 0)) ''TEST-SKU-TIMEOUT'' = 500 * Millisecond
   \<and> returnedAt shippedBackends nominalEnv ''TEST-SKU-TIMEOUT'' 0 = 450 * Millisecond
   \<and> length nominalSchedule \<le> 3 * length shippedBackends + 2
   \<and> (\<exists>s c. runAt shippedBackends nominalEnv ''TEST-SKU-TIMEOUT''
               (initTimed shippedBackends ''TEST-SKU-TIMEOUT'') nominalSchedule = Some (s, c)
          \<and> mainPhase s = Returned
          \<and> FanOutAndAggregate ServiceMap nominalEnv ''TEST-SKU-TIMEOUT'' nominalSchedule
              = Returns (summary s) None
          \<and> mainAt c = 450 * Millisecond)"
proof -
  let ?pid = "''TEST-SKU-TIMEOUT''"
  from timeout_round obtain s where
    r: "run ServiceMap nominalEnv ?pid (initState ServiceMap ?pid) nominalSchedule = Some s"
    and rt: "mainPhase s = Returned"
    by (auto simp: Returns_run)
  from r have "run (registryOf shippedBackends) nominalEnv ?pid
                 (initState (registryOf shippedBackends) ?pid) nominalSchedule = Some s"
    by (simp only: registryOf_shipped)
  from run_runAt [OF this, of initClocks] obtain c where
    ra: "runAt shippedBackends nominalEnv ?pid (initTimed shippedBackends ?pid) nominalSchedule
           = Some (s, c)"
    by (auto simp: initTimed_def)
  note t = bounded_completion [OF ra, of 0]
  have st: "\<forall>i < length shippedBackends.
              started (nominalEnv (fst (shippedBackends ! i))) \<le> 450 * Millisecond + 0"
    by (simp add: nominalEnv_def Millisecond_def)
  from t st have up: "mainAt c \<le> 450 * Millisecond" by simp
  have l: "0 < length shippedBackends" by (simp add: shippedBackends_def)
  from t rt l have "returnedAt shippedBackends nominalEnv ?pid 0 \<le> mainAt c" by blast
  with up have m: "mainAt c = 450 * Millisecond" by (simp add: returnedAt_price_timeout)
  from t rt have f: "FanOutAndAggregate ServiceMap nominalEnv ?pid nominalSchedule
              = Returns (summary s) None"
    by (simp add: registryOf_shipped)
  from t have len: "length nominalSchedule \<le> 3 * length shippedBackends + 2" by blast
  have d: "simDelay (snd (shippedBackends ! 0)) ?pid = 500 * Millisecond"
    by (simp add: shippedBackends_def)
  from ra rt f m have e: "\<exists>s c. runAt shippedBackends nominalEnv ?pid
               (initTimed shippedBackends ?pid) nominalSchedule = Some (s, c)
          \<and> mainPhase s = Returned
          \<and> FanOutAndAggregate ServiceMap nominalEnv ?pid nominalSchedule
              = Returns (summary s) None
          \<and> mainAt c = 450 * Millisecond"
    by blast
  show ?thesis
    by (intro conjI) (rule registryOf_shipped d returnedAt_price_timeout len e)+
qed

section \<open>The shipped registry and the type assertions\<close>

lemma simulatedCall_ok:
  "snd (simulatedCall cenv ctx delay p False v) = None \<Longrightarrow>
   fst (simulatedCall cenv ctx delay p False v) = v"
  by (simp add: simulatedCall_def split: SelectCase.splits)

lemma wellTyped_executeService:
  assumes "\<And>cenv ctx p. snd (fn cenv ctx p) = None \<Longrightarrow> fst (fn cenv ctx p) = v"
    and "key = ''price'' \<Longrightarrow> (case v of VFloat64 x \<Rightarrow> True | _ \<Rightarrow> False)"
    and "key = ''stock'' \<Longrightarrow> (case v of VInt n \<Rightarrow> True | _ \<Rightarrow> False)"
    and "key = ''promotion'' \<Longrightarrow> (case v of VString t \<Rightarrow> True | _ \<Rightarrow> False)"
  shows "wellTyped (executeService cenv ctx key pid fn)"
proof (cases "snd (fn cenv ctx pid)")
  case None
  with assms(1) have "executeService cenv ctx key pid fn
      = \<lparr>Key = key, Value = v, Status = StatusSuccess, Error = None\<rparr>"
    by (simp add: executeService_cases)
  with assms(2-4) show ?thesis by (auto simp: wellTyped_def)
next
  case (Some e)
  then have "Status (executeService cenv ctx key pid fn) \<noteq> StatusSuccess"
    by (simp add: executeService_cases Status_distinct [symmetric])
  then show ?thesis by (simp add: wellTyped_def)
qed

lemma backend_values:
  "snd (FetchPriceSimulates cenv ctx p) = None \<Longrightarrow>
   fst (FetchPriceSimulates cenv ctx p) = VFloat64 (4999 / 100)"
  "snd (FetchInventorySimulates cenv ctx p) = None \<Longrightarrow>
   fst (FetchInventorySimulates cenv ctx p) = VInt 120"
  "snd (FetchPromotionsSimulates cenv ctx p) = None \<Longrightarrow>
   fst (FetchPromotionsSimulates cenv ctx p) = VString ''Buy 1 Get 1 Half Off!''"
  by (simp_all add: FetchPriceSimulates_def FetchInventorySimulates_def
      FetchPromotionsSimulates_def simulatedCall_ok Let_def)

lemma outcomes_ServiceMap:
  "outcomes ServiceMap env pid =
     [executeService (env ''price'') (context_WithTimeout aggregationTimeout)
        ''price'' pid FetchPriceSimulates,
      executeService (env ''stock'') (context_WithTimeout aggregationTimeout)
        ''stock'' pid FetchInventorySimulates,
      executeService (env ''promotion'') (context_WithTimeout aggregationTimeout)
        ''promotion'' pid FetchPromotionsSimulates]"
  by (simp add: outcomes_def ServiceMap_def)

lemma ServiceMap_wellTyped: "\<forall>r \<in> set (outcomes ServiceMap env pid). wellTyped r"
proof -
  have 1: "wellTyped (executeService (env ''price'') (context_WithTimeout aggregationTimeout)
        ''price'' pid FetchPriceSimulates)"
    by (rule wellTyped_executeService [where v = "VFloat64 (4999 / 100)"])
      (simp_all add: backend_values)
  have 2: "wellTyped (executeService (env ''stock'') (context_WithTimeout aggregationTimeout)
        ''stock'' pid FetchInventorySimulates)"
    by (rule wellTyped_executeService [where v = "VInt 120"])
      (simp_all add: backend_values)
  have 3: "wellTyped (executeService (env ''promotion'')
        (context_WithTimeout aggregationTimeout) ''promotion'' pid FetchPromotionsSimulates)"
    by (rule wellTyped_executeService [where v = "VString ''Buy 1 Get 1 Half Off!''"])
      (simp_all add: backend_values)
  from 1 2 3 show ?thesis by (simp add: outcomes_ServiceMap)
qed

lemma ServiceMap_no_panic: "FanOutAndAggregate ServiceMap env pid es \<noteq> Panics"
proof
  assume "FanOutAndAggregate ServiceMap env pid es = Panics"
  then obtain s where r: "run ServiceMap env pid (initState ServiceMap pid) es = Some s"
    and p: "mainPhase s = Panicked"
    by (auto simp: Panics_run)
  from no_panic [OF roundInv_reachable [OF r] ServiceMap_wellTyped] p show False by simp
qed

text \<open>
  Claim C10. With the shipped registry no round panics, under any schedule, any
  runtime decisions and any product id: every outcome of the registry is well typed,
  so no type assertion of the loop fails on it. Each shipped backend, whenever it
  succeeds, returns the value of its key's dynamic type: price the \<open>float64\<close>
  49.99, stock the \<open>int\<close> 120, promotion its string.
\<close>

theorem type_assertions_never_panic:
  "FanOutAndAggregate ServiceMap env pid es \<noteq> Panics
   \<and> (\<forall>r \<in> set (outcomes ServiceMap env pid). wellTyped r)
   \<and> (\<forall>r \<in> set (outcomes ServiceMap env pid). \<forall>acc. \<exists>acc'. fanIn r acc = Inr acc')
   \<and> (snd (FetchPriceSimulates cenv ctx p) = None \<longrightarrow>
        fst (FetchPriceSimulates cenv ctx p) = VFloat64 (4999 / 100))
   \<and> (snd (FetchInventorySimulates cenv ctx p) = None \<longrightarrow>
        fst (FetchInventorySimulates cenv ctx p) = VInt 120)
   \<and> (snd (FetchPromotionsSimulates cenv ctx p) = None \<longrightarrow>
        fst (FetchPromotionsSimulates cenv ctx p) = VString ''Buy 1 Get 1 Half Off!'')"
proof -
  have c3: "\<forall>r \<in> set (outcomes ServiceMap env pid). \<forall>acc. \<exists>acc'. fanIn r acc = Inr acc'"
    using ServiceMap_wellTyped [of env pid] fanIn_wellTyped by blast
  have c4: "snd (FetchPriceSimulates cenv ctx p) = None \<longrightarrow>
        fst (FetchPriceSimulates cenv ctx p) = VFloat64 (4999 / 100)"
    using backend_values(1) by blast
  have c5: "snd (FetchInventorySimulates cenv ctx p) = None \<longrightarrow>
        fst (FetchInventorySimulates cenv ctx p) = VInt 120"
    using backend_values(2) by blast
  have c6: "snd (FetchPromotionsSimulates cenv ctx p) = None \<longrightarrow>
        fst (FetchPromotionsSimulates cenv ctx p) = VString ''Buy 1 Get 1 Half Off!''"
    using backend_values(3) by blast
  show ?thesis
    by (intro conjI) (rule ServiceMap_no_panic ServiceMap_wellTyped c3 c4 c5 c6)+
qed

theorem type_assertions_never_panic_witness:
  "snd (FetchPriceSimulates (nominalEnv ''price'') (context_WithTimeout aggregationTimeout)
          ''SKU-1'') = None
   \<and> fst (FetchPriceSimulates (nominalEnv ''price'') (context_WithTimeout aggregationTimeout)
          ''SKU-1'') = VFloat64 (4999 / 100)
   \<and> workerResult ServiceMap nominalEnv ''SKU-1'' 0 \<in> set (outcomes ServiceMap nominalEnv ''SKU-1'')
   \<and> wellTyped (workerResult ServiceMap nominalEnv ''SKU-1'' 0)
   \<and> FanOutAndAggregate ServiceMap nominalEnv ''SKU-1'' nominalSchedule \<noteq> Panics"
proof -
  let ?ctx = "context_WithTimeout aggregationTimeout"
  have n: "snd (FetchPriceSimulates (nominalEnv ''price'') ?ctx ''SKU-1'') = None"
    by (simp add: backend_defs)
  have m: "workerResult ServiceMap nominalEnv ''SKU-1'' 0
             \<in> set (outcomes ServiceMap nominalEnv ''SKU-1'')"
    by (rule workerResult_in_outcomes) (simp add: length_ServiceMap)
  note t = type_assertions_never_panic
    [of nominalEnv "''SKU-1''" nominalSchedule "nominalEnv ''price''" ?ctx "''SKU-1''"]
  from t n have 1: "fst (FetchPriceSimulates (nominalEnv ''price'') ?ctx ''SKU-1'')
      = VFloat64 (4999 / 100)"
    by blast
  from t m have 2: "wellTyped (workerResult ServiceMap nominalEnv ''SKU-1'' 0)" by blast
  from t have 3: "FanOutAndAggregate ServiceMap nominalEnv ''SKU-1'' nominalSchedule \<noteq> Panics"
    by blast
  show ?thesis
    by (intro conjI) (rule n 1 m 2 3)+
qed

section \<open>The all-success scenario\<close>

lemma selectCase_timer:
  "started cenv + delay < aggregationTimeout \<Longrightarrow> 0 \<le> delay \<Longrightarrow>
   selectCase cenv (context_WithTimeout aggregationTimeout) delay = TimerFired"
  by (simp add: selectCase_def timerAt_def doneAt_def context_WithTimeout_def)

lemma success_outcomes:
  assumes e: "started (env ''price'') < 250 * Millisecond"
      "started (env ''stock'') < 50 * Millisecond"
      "started (env ''promotion'') < 400 * Millisecond"
    and pid: "pid \<noteq> ''TEST-SKU-TIMEOUT''"
  shows "outcomes ServiceMap env pid =
     [\<lparr>Key = ''price'', Value = VFloat64 (4999 / 100), Status = StatusSuccess, Error = None\<rparr>,
      \<lparr>Key = ''stock'', Value = VInt 120, Status = StatusSuccess, Error = None\<rparr>,
      \<lparr>Key = ''promotion'', Value = VString ''Buy 1 Get 1 Half Off!'',
       Status = StatusSuccess, Error = None\<rparr>]"
proof -
  have 1: "executeService (env ''price'') (context_WithTimeout aggregationTimeout)
        ''price'' pid FetchPriceSimulates
      = \<lparr>Key = ''price'', Value = VFloat64 (4999 / 100), Status = StatusSuccess, Error = None\<rparr>"
  proof -
    have "selectCase (env ''price'') (context_WithTimeout aggregationTimeout)
            (200 * Millisecond) = TimerFired"
      using e(1) by (intro selectCase_timer) (simp_all add: aggregationTimeout_def Millisecond_def)
    then show ?thesis using pid
      by (simp add: executeService_cases FetchPriceSimulates_def simulatedCall_def)
  qed
  have 2: "executeService (env ''stock'') (context_WithTimeout aggregationTimeout)
        ''stock'' pid FetchInventorySimulates
      = \<lparr>Key = ''stock'', Value = VInt 120, Status = StatusSuccess, Error = None\<rparr>"
  proof -
    have "selectCase (env ''stock'') (context_WithTimeout aggregationTimeout)
            (400 * Millisecond) = TimerFired"
      using e(2) by (intro selectCase_timer) (simp_all add: aggregationTimeout_def Millisecond_def)
    then show ?thesis
      by (simp add: executeService_cases FetchInventorySimulates_def simulatedCall_def)
  qed
  have 3: "executeService (env ''promotion'') (context_WithTimeout aggregationTimeout)
        ''promotion'' pid FetchPromotionsSimulates
      = \<lparr>Key = ''promotion'', Value = VString ''Buy 1 Get 1 Half Off!'',
         Status = StatusSuccess, Error = None\<rparr>"
  proof -
    have "selectCase (env ''promotion'') (context_WithTimeout aggregationTimeout)
            (50 * Millisecond) = TimerFired"
      using e(3) by (intro selectCase_timer) (simp_all add: aggregationTimeout_def Millisecond_def)
    then show ?thesis
      by (simp add: executeService_cases FetchPromotionsSimulates_def simulatedCall_def)
  qed
  show ?thesis by (simp only: outcomes_ServiceMap 1 2 3)
qed

lemma all_success_summary:
  assumes e: "started (env ''price'') < 250 * Millisecond"
      "started (env ''stock'') < 50 * Millisecond"
      "started (env ''promotion'') < 400 * Millisecond"
    and pid: "pid \<noteq> ''TEST-SKU-TIMEOUT''"
    and ret: "FanOutAndAggregate ServiceMap env pid es = Returns sm err"
  shows "sm = successSummary pid \<and> err = None"
proof -
  note oc = success_outcomes [OF e pid]
  let ?rp = "\<lparr>Key = ''price'', Value = VFloat64 (4999 / 100), Status = StatusSuccess,
              Error = None\<rparr>"
  let ?rs = "\<lparr>Key = ''stock'', Value = VInt 120, Status = StatusSuccess, Error = None\<rparr>"
  let ?rm = "\<lparr>Key = ''promotion'', Value = VString ''Buy 1 Get 1 Half Off!'',
              Status = StatusSuccess, Error = None\<rparr>"
  have fp: "fieldOf ''price'' sm = settled ?rp"
    using Returns_field [OF ret distinct_ServiceMap, of ?rp]
    by (simp add: oc fieldKeys_simps)
  have fs: "fieldOf ''stock'' sm = settled ?rs"
    using Returns_field [OF ret distinct_ServiceMap, of ?rs]
    by (simp add: oc fieldKeys_simps)
  have fm: "fieldOf ''promotion'' sm = settled ?rm"
    using Returns_field [OF ret distinct_ServiceMap, of ?rm]
    by (simp add: oc fieldKeys_simps)
  from Returns_frame [OF ret] have fr: "ProductID sm = pid" "TotalTimeMs sm = 0"
    and "mset (ServiceErrors sm) = mset []"
    by (simp_all add: oc)
  then have er: "ServiceErrors sm = []" by simp
  from fp have 1: "Price sm = 4999 / 100" "PriceStatus sm = StatusSuccess"
    by (simp_all add: fieldOf_simps settled_def)
  from fs have 2: "Stock sm = 120" "StockStatus sm = StatusSuccess"
    by (simp_all add: fieldOf_simps settled_def)
  from fm have 3: "Promotion sm = ''Buy 1 Get 1 Half Off!''" "PromotionStatus sm = StatusSuccess"
    by (simp_all add: fieldOf_simps settled_def)
  have "sm = successSummary pid"
    using fr er 1 2 3 by (cases sm) (simp add: successSummary_def)
  moreover from ret have "err = None" by (auto simp: Returns_run)
  ultimately show ?thesis by simp
qed

lemma ServiceMap_returns:
  "\<exists>es sm. FanOutAndAggregate ServiceMap env pid es = Returns sm None"
proof -
  have "mainPhase (initState ServiceMap pid) \<noteq> Panicked" by (simp add: initState_def)
  from completion_Returned [OF roundInv_initState ServiceMap_wellTyped this]
  obtain es s' where "run ServiceMap env pid (initState ServiceMap pid) es = Some s'"
    "mainPhase s' = Returned"
    by blast
  then have "FanOutAndAggregate ServiceMap env pid es = Returns (summary s') None"
    by (simp add: Returns_run)
  then show ?thesis by blast
qed

text \<open>
  Claim C6, as amended. The all-success scenario: with the shipped registry (price
  200 ms, stock 400 ms, promotion 50 ms, none failing), the 450 ms deadline and any
  product id other than the one that slows the price backend, provided every backend
  call starts early enough for its delay to end before the deadline (the price call
  less than 250 ms, the stock call less than 50 ms and the promotion call less than
  400 ms after the context is created), some schedule returns, no schedule panics, and
  every returned summary is the expected one: price 49.99, stock 120, promotion
  "Buy 1 Get 1 Half Off!", the three statuses SUCCESS and no service errors.
\<close>

theorem all_success_scenario:
  assumes "started (env ''price'') < 250 * Millisecond"
    and "started (env ''stock'') < 50 * Millisecond"
    and "started (env ''promotion'') < 400 * Millisecond"
    and "pid \<noteq> ''TEST-SKU-TIMEOUT''"
  shows
    "(\<exists>es. FanOutAndAggregate ServiceMap env pid es = Returns (successSummary pid) None)
     \<and> (\<forall>es sm err. FanOutAndAggregate ServiceMap env pid es = Returns sm err \<longrightarrow>
          err = None \<and> sm = successSummary pid
          \<and> Price sm = 4999 / 100 \<and> Stock sm = 120
          \<and> Promotion sm = ''Buy 1 Get 1 Half Off!''
          \<and> PriceStatus sm = StatusSuccess \<and> StockStatus sm = StatusSuccess
          \<and> PromotionStatus sm = StatusSuccess \<and> ServiceErrors sm = [])
     \<and> (\<forall>es. FanOutAndAggregate ServiceMap env pid es \<noteq> Panics)"
proof -
  have u: "\<And>es sm err. FanOutAndAggregate ServiceMap env pid es = Returns sm err \<Longrightarrow>
          err = None \<and> sm = successSummary pid"
    using all_success_summary [OF assms] by blast
  from ServiceMap_returns [of env pid] obtain es sm where
    "FanOutAndAggregate ServiceMap env pid es = Returns sm None"
    by blast
  with u [OF this] have c1:
    "\<exists>es. FanOutAndAggregate ServiceMap env pid es = Returns (successSummary pid) None"
    by blast
  have c2: "\<forall>es sm err. FanOutAndAggregate ServiceMap env pid es = Returns sm err \<longrightarrow>
          err = None \<and> sm = successSummary pid
          \<and> Price sm = 4999 / 100 \<and> Stock sm = 120
          \<and> Promotion sm = ''Buy 1 Get 1 Half Off!''
          \<and> PriceStatus sm = StatusSuccess \<and> StockStatus sm = StatusSuccess
          \<and> PromotionStatus sm = StatusSuccess \<and> ServiceErrors sm = []"
  proof (intro allI impI)
    fix es sm err
    assume "FanOutAndAggregate ServiceMap env pid es = Returns sm err"
    from u [OF this] show "err = None \<and> sm = successSummary pid
          \<and> Price sm = 4999 / 100 \<and> Stock sm = 120
          \<and> Promotion sm = ''Buy 1 Get 1 Half Off!''
          \<and> PriceStatus sm = StatusSuccess \<and> StockStatus sm = StatusSuccess
          \<and> PromotionStatus sm = StatusSuccess \<and> ServiceErrors sm = []"
      by (simp add: successSummary_def)
  qed
  have c3: "\<forall>es. FanOutAndAggregate ServiceMap env pid es \<noteq> Panics"
    using ServiceMap_no_panic by blast
  show ?thesis
    by (intro conjI) (rule c1 c2 c3)+
qed

theorem all_success_scenario_witness:
  "started (nominalEnv ''price'') < 250 * Millisecond
   \<and> started (nominalEnv ''stock'') < 50 * Millisecond
   \<and> started (nominalEnv ''promotion'') < 400 * Millisecond
   \<and> ''SKU-1'' \<noteq> ''TEST-SKU-TIMEOUT''
   \<and> FanOutAndAggregate ServiceMap nominalEnv ''SKU-1'' nominalSchedule
       = Returns (successSummary ''SKU-1'') None
   \<and> Price (successSummary ''SKU-1'') = 4999 / 100
   \<and> Stock (successSummary ''SKU-1'') = 120
   \<and> PriceStatus (successSummary ''SKU-1'') = StatusSuccess
   \<and> ServiceErrors (successSummary ''SKU-1'') = []"
proof -
  have h1: "started (nominalEnv ''price'') < 250 * Millisecond"
    and h2: "started (nominalEnv ''stock'') < 50 * Millisecond"
    and h3: "started (nominalEnv ''promotion'') < 400 * Millisecond"
    by (simp_all add: nominalEnv_def Millisecond_def)
  have h4: "''SKU-1'' \<noteq> ''TEST-SKU-TIMEOUT''" by simp
  note t = all_success_scenario [OF h1 h2 h3 h4]
  from t nominal_round have 1: "Price (successSummary ''SKU-1'') = 4999 / 100" by blast
  from t nominal_round have 2: "Stock (successSummary ''SKU-1'') = 120" by blast
  from t nominal_round have 3: "PriceStatus (successSummary ''SKU-1'') = StatusSuccess"
    by blast
  from t nominal_round have 4: "ServiceErrors (successSummary ''SKU-1'') = []" by blast
  show ?thesis
    by (intro conjI) (rule h1 h2 h3 h4 nominal_round 1 2 3 4)+
qed

text \<open>
  Claim C6 as stated fails when the runtime starts the stock call too late: started
  100 ms after the context is created, the 400 ms stock backend runs into the 450 ms
  deadline, and the round for an ordinary product id returns the stock fallback with
  one service error.
\<close>

lemma slow_ordinary_results:
  "workerResult ServiceMap slowEnv ''SKU-1'' 0 =
     \<lparr>Key = ''price'', Value = VFloat64 (4999 / 100), Status = StatusSuccess, Error = None\<rparr>"
  "workerResult ServiceMap slowEnv ''SKU-1'' (Suc 0) =
     \<lparr>Key = ''stock'', Value = VNil, Status = StatusTimeout, Error = Some stockTimeoutError\<rparr>"
  "workerResult ServiceMap slowEnv ''SKU-1'' 2 =
     \<lparr>Key = ''promotion'', Value = VString ''Buy 1 Get 1 Half Off!'', Status = StatusSuccess,
      Error = None\<rparr>"
  by (simp_all add: workerResult_def ServiceMap_def executeService_cases backend_defs
      slowEnv_def stockTimeoutError_def)

theorem late_stock_call_falls_back:
  "FanOutAndAggregate ServiceMap slowEnv ''SKU-1'' nominalSchedule
     = Returns (stockTimeoutSummary ''SKU-1'') None
   \<and> ''SKU-1'' \<noteq> ''TEST-SKU-TIMEOUT''
   \<and> Stock (stockTimeoutSummary ''SKU-1'') = 0
   \<and> StockStatus (stockTimeoutSummary ''SKU-1'') = StatusFallback
   \<and> ServiceErrors (stockTimeoutSummary ''SKU-1'') = [stockTimeoutError]"
  by (simp add: FanOutAndAggregate_def nominalSchedule_def initState_def initSummary_def
      length_ServiceMap slow_ordinary_results fanIn_def Status_distinct
      Status_distinct [symmetric] fallbackStock_def stockTimeoutSummary_def)

section \<open>The statuses of a returned summary\<close>

lemma Returns_status:
  assumes ret: "FanOutAndAggregate reg env pid es = Returns sm err"
    and k: "k \<in> fieldKeys"
  shows "snd (fieldOf k sm) = StatusSuccess \<or> snd (fieldOf k sm) = StatusFallback
         \<or> (snd (fieldOf k sm) = [] \<and> k \<notin> fst ` set reg)"
proof -
  from Returns_fanIn [OF ret] obtain rs sm' where
    ms: "mset rs = mset (outcomes reg env pid)"
    and f: "fanInAll rs (initSummary pid, []) = Inr (sm', errorsOf rs)"
    and sm: "sm = sm'\<lparr>ServiceErrors := errorsOf rs\<rparr>"
    by blast
  from ms have "set (map Key rs) = set (map Key (outcomes reg env pid))"
    by (metis mset_map mset_eq_setD)
  then have keys: "Key ` set rs = fst ` set reg" by simp
  have init: "snd (fieldOf k (initSummary pid)) = []"
    by (simp add: fieldOf_def initSummary_def)
  from fanInAll_status [OF f, of k] k
  have "snd (fieldOf k sm') = StatusSuccess \<or> snd (fieldOf k sm') = StatusFallback
        \<or> (fieldOf k sm' = fieldOf k (initSummary pid) \<and> (\<forall>r \<in> set rs. Key r \<noteq> k))"
    by blast
  then show ?thesis
  proof (elim disjE conjE)
    assume "snd (fieldOf k sm') = StatusSuccess"
    then show ?thesis by (simp add: sm)
  next
    assume "snd (fieldOf k sm') = StatusFallback"
    then show ?thesis by (simp add: sm)
  next
    assume a: "fieldOf k sm' = fieldOf k (initSummary pid)" and b: "\<forall>r \<in> set rs. Key r \<noteq> k"
    from b have "k \<notin> Key ` set rs" by blast
    with keys have "k \<notin> fst ` set reg" by simp
    with a init show ?thesis by (simp add: sm)
  qed
qed

text \<open>
  Claim C7. In a summary returned by \<open>FanOutAndAggregate\<close> no per-field status is
  TIMEOUT or ERROR, for any registry; and the status of a field whose key is registered,
  as price, stock and promotion are in the shipped registry, is SUCCESS or FALLBACK.
  TIMEOUT and ERROR are statuses of the workers' \<open>FetchResult\<close> only.
\<close>

theorem field_status_success_or_fallback:
  assumes "FanOutAndAggregate reg env pid es = Returns sm err"
  shows
    "PriceStatus sm \<noteq> StatusTimeout \<and> PriceStatus sm \<noteq> StatusError
     \<and> StockStatus sm \<noteq> StatusTimeout \<and> StockStatus sm \<noteq> StatusError
     \<and> PromotionStatus sm \<noteq> StatusTimeout \<and> PromotionStatus sm \<noteq> StatusError
     \<and> (''price'' \<in> fst ` set reg \<longrightarrow>
          PriceStatus sm = StatusSuccess \<or> PriceStatus sm = StatusFallback)
     \<and> (''stock'' \<in> fst ` set reg \<longrightarrow>
          StockStatus sm = StatusSuccess \<or> StockStatus sm = StatusFallback)
     \<and> (''promotion'' \<in> fst ` set reg \<longrightarrow>
          PromotionStatus sm = StatusSuccess \<or> PromotionStatus sm = StatusFallback)"
proof -
  from Returns_status [OF assms, of "''price''"]
  have p: "PriceStatus sm = StatusSuccess \<or> PriceStatus sm = StatusFallback
           \<or> (PriceStatus sm = [] \<and> ''price'' \<notin> fst ` set reg)"
    by (simp add: fieldKeys_simps fieldOf_simps)
  from Returns_status [OF assms, of "''stock''"]
  have s: "StockStatus sm = StatusSuccess \<or> StockStatus sm = StatusFallback
           \<or> (StockStatus sm = [] \<and> ''stock'' \<notin> fst ` set reg)"
    by (simp add: fieldKeys_simps fieldOf_simps)
  from Returns_status [OF assms, of "''promotion''"]
  have m: "PromotionStatus sm = StatusSuccess \<or> PromotionStatus sm = StatusFallback
           \<or> (PromotionStatus sm = [] \<and> ''promotion'' \<notin> fst ` set reg)"
    by (simp add: fieldKeys_simps fieldOf_simps)
  have c1: "PriceStatus sm \<noteq> StatusTimeout" "PriceStatus sm \<noteq> StatusError"
    using p by (auto simp: Status_distinct Status_distinct [symmetric])
  have c2: "StockStatus sm \<noteq> StatusTimeout" "StockStatus sm \<noteq> StatusError"
    using s by (auto simp: Status_distinct Status_distinct [symmetric])
  have c3: "PromotionStatus sm \<noteq> StatusTimeout" "PromotionStatus sm \<noteq> StatusError"
    using m by (auto simp: Status_distinct Status_distinct [symmetric])
  have c4: "''price'' \<in> fst ` set reg \<longrightarrow>
          PriceStatus sm = StatusSuccess \<or> PriceStatus sm = StatusFallback"
    using p by blast
  have c5: "''stock'' \<in> fst ` set reg \<longrightarrow>
          StockStatus sm = StatusSuccess \<or> StockStatus sm = StatusFallback"
    using s by blast
  have c6: "''promotion'' \<in> fst ` set reg \<longrightarrow>
          PromotionStatus sm = StatusSuccess \<or> PromotionStatus sm = StatusFallback"
    using m by blast
  show ?thesis
    by (intro conjI) (rule c1 c2 c3 c4 c5 c6)+
qed

theorem field_status_success_or_fallback_witness:
  "FanOutAndAggregate ServiceMap nominalEnv ''TEST-SKU-TIMEOUT'' nominalSchedule
     = Returns priceTimeoutSummary None
   \<and> ''price'' \<in> fst ` set ServiceMap \<and> ''stock'' \<in> fst ` set ServiceMap
   \<and> ''promotion'' \<in> fst ` set ServiceMap
   \<and> (PriceStatus priceTimeoutSummary = StatusSuccess
        \<or> PriceStatus priceTimeoutSummary = StatusFallback)
   \<and> (StockStatus priceTimeoutSummary = StatusSuccess
        \<or> StockStatus priceTimeoutSummary = StatusFallback)
   \<and> (PromotionStatus priceTimeoutSummary = StatusSuccess
        \<or> PromotionStatus priceTimeoutSummary = StatusFallback)
   \<and> PriceStatus priceTimeoutSummary \<noteq> StatusTimeout
   \<and> Status (workerResult ServiceMap nominalEnv ''TEST-SKU-TIMEOUT'' 0) = StatusTimeout"
proof -
  have k: "''price'' \<in> fst ` set ServiceMap" "''stock'' \<in> fst ` set ServiceMap"
    "''promotion'' \<in> fst ` set ServiceMap"
    by (simp_all add: ServiceMap_def)
  note t = field_status_success_or_fallback [OF timeout_round]
  from t k have 1: "PriceStatus priceTimeoutSummary = StatusSuccess
        \<or> PriceStatus priceTimeoutSummary = StatusFallback"
    by blast
  from t k have 2: "StockStatus priceTimeoutSummary = StatusSuccess
        \<or> StockStatus priceTimeoutSummary = StatusFallback"
    by blast
  from t k have 3: "PromotionStatus priceTimeoutSummary = StatusSuccess
        \<or> PromotionStatus priceTimeoutSummary = StatusFallback"
    by blast
  from t have 4: "PriceStatus priceTimeoutSummary \<noteq> StatusTimeout" by blast
  have 5: "Status (workerResult ServiceMap nominalEnv ''TEST-SKU-TIMEOUT'' 0) = StatusTimeout"
    by (simp add: timeout_results)
  show ?thesis
    by (intro conjI) (rule timeout_round k 1 2 3 4 5)+
qed

section \<open>The elapsed time\<close>

text \<open>
  Claim C8. \<open>FanOutAndAggregate\<close> never writes \<open>TotalTimeMs\<close>: every summary it
  returns has the field at its zero value. \<open>GetCartSummary\<close>, when it answers,
  answers 200 with the engine's summary in which only \<open>TotalTimeMs\<close> has been set,
  to the elapsed milliseconds; every other field is as the engine returned it.
\<close>

theorem timing_stamped_by_caller:
  "(FanOutAndAggregate reg env pid es = Returns sm err \<longrightarrow> TotalTimeMs sm = 0)
   \<and> (GetCartSummary reg env pid es elapsed = Some resp \<longrightarrow>
        (\<exists>cart body. FanOutAndAggregate reg env pid es = Returns cart None
           \<and> resp = HttpJSON 200 body
           \<and> body = cart\<lparr>TotalTimeMs := Duration_Milliseconds elapsed\<rparr>
           \<and> TotalTimeMs body = Duration_Milliseconds elapsed
           \<and> ProductID body = ProductID cart
           \<and> Price body = Price cart \<and> PriceStatus body = PriceStatus cart
           \<and> Stock body = Stock cart \<and> StockStatus body = StockStatus cart
           \<and> Promotion body = Promotion cart \<and> PromotionStatus body = PromotionStatus cart
           \<and> ServiceErrors body = ServiceErrors cart))
   \<and> (FanOutAndAggregate reg env pid es = Returns sm err \<longrightarrow>
        GetCartSummary reg env pid es elapsed
          = Some (HttpJSON 200 (sm\<lparr>TotalTimeMs := Duration_Milliseconds elapsed\<rparr>)))"
proof -
  have c1: "FanOutAndAggregate reg env pid es = Returns sm err \<longrightarrow> TotalTimeMs sm = 0"
    using Returns_frame by blast
  have c2: "GetCartSummary reg env pid es elapsed = Some resp \<longrightarrow>
        (\<exists>cart body. FanOutAndAggregate reg env pid es = Returns cart None
           \<and> resp = HttpJSON 200 body
           \<and> body = cart\<lparr>TotalTimeMs := Duration_Milliseconds elapsed\<rparr>
           \<and> TotalTimeMs body = Duration_Milliseconds elapsed
           \<and> ProductID body = ProductID cart
           \<and> Price body = Price cart \<and> PriceStatus body = PriceStatus cart
           \<and> Stock body = Stock cart \<and> StockStatus body = StockStatus cart
           \<and> Promotion body = Promotion cart \<and> PromotionStatus body = PromotionStatus cart
           \<and> ServiceErrors body = ServiceErrors cart)"
  proof
    assume g: "GetCartSummary reg env pid es elapsed = Some resp"
    then obtain cart e where r: "FanOutAndAggregate reg env pid es = Returns cart e"
      by (auto simp: GetCartSummary_def split: Outcome.splits)
    then have e: "e = None" by (auto simp: Returns_run)
    with g r have "resp = HttpJSON 200 (cart\<lparr>TotalTimeMs := Duration_Milliseconds elapsed\<rparr>)"
      by (simp add: GetCartSummary_def)
    with r e show "\<exists>cart body. FanOutAndAggregate reg env pid es = Returns cart None
           \<and> resp = HttpJSON 200 body
           \<and> body = cart\<lparr>TotalTimeMs := Duration_Milliseconds elapsed\<rparr>
           \<and> TotalTimeMs body = Duration_Milliseconds elapsed
           \<and> ProductID body = ProductID cart
           \<and> Price body = Price cart \<and> PriceStatus body = PriceStatus cart
           \<and> Stock body = Stock cart \<and> StockStatus body = StockStatus cart
           \<and> Promotion body = Promotion cart \<and> PromotionStatus body = PromotionStatus cart
           \<and> ServiceErrors body = ServiceErrors cart"
      by simp
  qed
  have c3: "FanOutAndAggregate reg env pid es = Returns sm err \<longrightarrow>
        GetCartSummary reg env pid es elapsed
          = Some (HttpJSON 200 (sm\<lparr>TotalTimeMs := Duration_Milliseconds elapsed\<rparr>))"
  proof
    assume r: "FanOutAndAggregate reg env pid es = Returns sm err"
    then have "err = None" by (auto simp: Returns_run)
    with r show "GetCartSummary reg env pid es elapsed
          = Some (HttpJSON 200 (sm\<lparr>TotalTimeMs := Duration_Milliseconds elapsed\<rparr>))"
      by (simp add: GetCartSummary_def)
  qed
  show ?thesis
    by (intro conjI) (rule c1 c2 c3)+
qed

theorem timing_stamped_by_caller_witness:
  "FanOutAndAggregate ServiceMap nominalEnv ''SKU-1'' nominalSchedule
     = Returns (successSummary ''SKU-1'') None
   \<and> TotalTimeMs (successSummary ''SKU-1'') = 0
   \<and> GetCartSummary ServiceMap nominalEnv ''SKU-1'' nominalSchedule (405 * Millisecond)
       = Some (HttpJSON 200 ((successSummary ''SKU-1'')\<lparr>TotalTimeMs := 405\<rparr>))"
proof -
  note t = timing_stamped_by_caller
    [of ServiceMap nominalEnv "''SKU-1''" nominalSchedule "successSummary ''SKU-1''" None
        "405 * Millisecond"]
  from t nominal_round have 1: "TotalTimeMs (successSummary ''SKU-1'') = 0" by blast
  have m: "Duration_Milliseconds (405 * Millisecond) = 405"
    by (simp add: Duration_Milliseconds_def Millisecond_def)
  from t nominal_round
  have "GetCartSummary ServiceMap nominalEnv ''SKU-1'' nominalSchedule (405 * Millisecond)
       = Some (HttpJSON 200 ((successSummary ''SKU-1'')
                \<lparr>TotalTimeMs := Duration_Milliseconds (405 * Millisecond)\<rparr>))"
    by blast
  then have 2: "GetCartSummary ServiceMap nominalEnv ''SKU-1'' nominalSchedule (405 * Millisecond)
       = Some (HttpJSON 200 ((successSummary ''SKU-1'')\<lparr>TotalTimeMs := 405\<rparr>))"
    by (simp only: m)
  show ?thesis
    by (intro conjI) (rule nominal_round 1 2)+
qed

section \<open>Repeated rounds\<close>

lemma slow_results:
  "workerResult ServiceMap slowEnv ''TEST-SKU-TIMEOUT'' 0 =
     \<lparr>Key = ''price'', Value = VNil, Status = StatusTimeout, Error = Some priceTimeoutError\<rparr>"
  "workerResult ServiceMap slowEnv ''TEST-SKU-TIMEOUT'' (Suc 0) =
     \<lparr>Key = ''stock'', Value = VNil, Status = StatusTimeout, Error = Some stockTimeoutError\<rparr>"
  "workerResult ServiceMap slowEnv ''TEST-SKU-TIMEOUT'' 2 =
     \<lparr>Key = ''promotion'', Value = VString ''Buy 1 Get 1 Half Off!'', Status = StatusSuccess,
      Error = None\<rparr>"
  by (simp_all add: workerResult_def ServiceMap_def executeService_cases backend_defs
      slowEnv_def priceTimeoutError_def stockTimeoutError_def)

lemma slow_round:
  "FanOutAndAggregate ServiceMap slowEnv ''TEST-SKU-TIMEOUT'' nominalSchedule =
     Returns (twoTimeoutsSummary [priceTimeoutError, stockTimeoutError]) None"
  by (simp add: FanOutAndAggregate_def nominalSchedule_def initState_def initSummary_def
      length_ServiceMap slow_results fanIn_def Status_distinct
      Status_distinct [symmetric] fallbackPrice_def fallbackStock_def twoTimeoutsSummary_def)

lemma slow_late_round:
  "FanOutAndAggregate ServiceMap slowEnv ''TEST-SKU-TIMEOUT'' lateSchedule =
     Returns (twoTimeoutsSummary [stockTimeoutError, priceTimeoutError]) None"
  by (simp add: FanOutAndAggregate_def lateSchedule_def initState_def initSummary_def
      length_ServiceMap slow_results fanIn_def Status_distinct
      Status_distinct [symmetric] fallbackPrice_def fallbackStock_def twoTimeoutsSummary_def)

lemma executeService_cong:
  assumes "fn cenv1 ctx pid = fn cenv2 ctx pid"
  shows "executeService cenv1 ctx key pid fn = executeService cenv2 ctx key pid fn"
  by (simp only: executeService_def assms)

lemma outcomes_cong:
  assumes "\<forall>(key, fn) \<in> set reg.
             fn (env1 key) (context_WithTimeout aggregationTimeout) pid
               = fn (env2 key) (context_WithTimeout aggregationTimeout) pid"
  shows "outcomes reg env1 pid = outcomes reg env2 pid"
proof -
  have "\<And>x. x \<in> set reg \<Longrightarrow>
          (case x of (key, fn) \<Rightarrow>
             executeService (env1 key) (context_WithTimeout aggregationTimeout) key pid fn)
          = (case x of (key, fn) \<Rightarrow>
             executeService (env2 key) (context_WithTimeout aggregationTimeout) key pid fn)"
  proof -
    fix x assume x: "x \<in> set reg"
    obtain key fn where kf: "x = (key, fn)" by (cases x)
    with x assms have "fn (env1 key) (context_WithTimeout aggregationTimeout) pid
               = fn (env2 key) (context_WithTimeout aggregationTimeout) pid"
      by blast
    then have "executeService (env1 key) (context_WithTimeout aggregationTimeout) key pid fn
        = executeService (env2 key) (context_WithTimeout aggregationTimeout) key pid fn"
      by (rule executeService_cong
          [where fn = fn and ?cenv1.0 = "env1 key" and ?cenv2.0 = "env2 key"])
    then show "(case x of (key, fn) \<Rightarrow>
             executeService (env1 key) (context_WithTimeout aggregationTimeout) key pid fn)
          = (case x of (key, fn) \<Rightarrow>
             executeService (env2 key) (context_WithTimeout aggregationTimeout) key pid fn)"
      by (simp add: kf)
  qed
  then show ?thesis
    unfolding outcomes_def by (rule map_cong [OF refl, rule_format])
qed

lemma Returns_field_determined:
  assumes dk: "distinct (map fst reg)"
    and oc: "outcomes reg env1 pid = outcomes reg env2 pid"
    and r1: "FanOutAndAggregate reg env1 pid es1 = Returns sm1 err1"
    and r2: "FanOutAndAggregate reg env2 pid es2 = Returns sm2 err2"
    and k: "k \<in> fieldKeys"
  shows "fieldOf k sm1 = fieldOf k sm2"
proof (cases "k \<in> fst ` set reg")
  case False
  from Returns_field_absent [OF r1 False] Returns_field_absent [OF r2 False]
  show ?thesis by simp
next
  case True
  then obtain fn where "(k, fn) \<in> set reg" by auto
  from outcomes_member [OF this, of env1 pid]
  obtain r where r: "r \<in> set (outcomes reg env1 pid)" "Key r = k"
    using Key_executeService by blast
  from r(1) oc have r': "r \<in> set (outcomes reg env2 pid)" by simp
  from Returns_field [OF r1 dk r(1)] Returns_field [OF r2 dk r'] r(2) k
  show ?thesis by simp
qed

text \<open>
  Claim C9. Two rounds over the same registry (with distinct keys) for the same product
  id, in which every backend call returns the same result, return summaries that agree
  in the product id, in the three values and the three statuses, in \<open>TotalTimeMs\<close>
  and in the multiset of service errors, whatever the two schedules are. (The order of
  the error list follows the order of arrival and may differ.)
\<close>

theorem idempotence:
  assumes "distinct (map fst reg)"
    and "\<forall>(key, fn) \<in> set reg.
           fn (env1 key) (context_WithTimeout aggregationTimeout) pid
             = fn (env2 key) (context_WithTimeout aggregationTimeout) pid"
    and "FanOutAndAggregate reg env1 pid es1 = Returns sm1 err1"
    and "FanOutAndAggregate reg env2 pid es2 = Returns sm2 err2"
  shows
    "ProductID sm1 = ProductID sm2
     \<and> Price sm1 = Price sm2 \<and> PriceStatus sm1 = PriceStatus sm2
     \<and> Stock sm1 = Stock sm2 \<and> StockStatus sm1 = StockStatus sm2
     \<and> Promotion sm1 = Promotion sm2 \<and> PromotionStatus sm1 = PromotionStatus sm2
     \<and> TotalTimeMs sm1 = TotalTimeMs sm2
     \<and> mset (ServiceErrors sm1) = mset (ServiceErrors sm2)
     \<and> err1 = err2"
proof -
  note oc = outcomes_cong [OF assms(2)]
  note f = Returns_field_determined [OF assms(1) oc assms(3) assms(4)]
  from f [of "''price''"] have p: "Price sm1 = Price sm2" "PriceStatus sm1 = PriceStatus sm2"
    by (simp_all add: fieldKeys_simps fieldOf_simps)
  from f [of "''stock''"] have s: "Stock sm1 = Stock sm2" "StockStatus sm1 = StockStatus sm2"
    by (simp_all add: fieldKeys_simps fieldOf_simps)
  from f [of "''promotion''"]
  have m: "Promotion sm1 = Promotion sm2" "PromotionStatus sm1 = PromotionStatus sm2"
    by (simp_all add: fieldKeys_simps fieldOf_simps)
  from Returns_frame [OF assms(3)] Returns_frame [OF assms(4)] oc
  have fr: "ProductID sm1 = ProductID sm2" "TotalTimeMs sm1 = TotalTimeMs sm2"
    "mset (ServiceErrors sm1) = mset (ServiceErrors sm2)"
    by simp_all
  from assms(3) assms(4) have e: "err1 = err2" by (auto simp: Returns_run)
  show ?thesis
    by (intro conjI) (rule fr p s m e)+
qed

theorem idempotence_witness:
  "distinct (map fst ServiceMap)
   \<and> FanOutAndAggregate ServiceMap slowEnv ''TEST-SKU-TIMEOUT'' nominalSchedule
       = Returns (twoTimeoutsSummary [priceTimeoutError, stockTimeoutError]) None
   \<and> FanOutAndAggregate ServiceMap slowEnv ''TEST-SKU-TIMEOUT'' lateSchedule
       = Returns (twoTimeoutsSummary [stockTimeoutError, priceTimeoutError]) None
   \<and> mset (ServiceErrors (twoTimeoutsSummary [priceTimeoutError, stockTimeoutError]))
       = mset (ServiceErrors (twoTimeoutsSummary [stockTimeoutError, priceTimeoutError]))
   \<and> Price (twoTimeoutsSummary [priceTimeoutError, stockTimeoutError])
       = Price (twoTimeoutsSummary [stockTimeoutError, priceTimeoutError])
   \<and> ServiceErrors (twoTimeoutsSummary [priceTimeoutError, stockTimeoutError])
       \<noteq> ServiceErrors (twoTimeoutsSummary [stockTimeoutError, priceTimeoutError])"
proof -
  have h: "\<forall>(key, fn) \<in> set ServiceMap.
         fn (slowEnv key) (context_WithTimeout aggregationTimeout) ''TEST-SKU-TIMEOUT''
           = fn (slowEnv key) (context_WithTimeout aggregationTimeout) ''TEST-SKU-TIMEOUT''"
    by simp
  note t = idempotence [OF distinct_ServiceMap h slow_round slow_late_round]
  from t have 1: "mset (ServiceErrors (twoTimeoutsSummary [priceTimeoutError, stockTimeoutError]))
       = mset (ServiceErrors (twoTimeoutsSummary [stockTimeoutError, priceTimeoutError]))"
    by blast
  from t have 2: "Price (twoTimeoutsSummary [priceTimeoutError, stockTimeoutError])
       = Price (twoTimeoutsSummary [stockTimeoutError, priceTimeoutError])"
    by blast
  have 3: "ServiceErrors (twoTimeoutsSummary [priceTimeoutError, stockTimeoutError])
       \<noteq> ServiceErrors (twoTimeoutsSummary [stockTimeoutError, priceTimeoutError])"
    by (simp add: twoTimeoutsSummary_def priceTimeoutError_def stockTimeoutError_def)
  show ?thesis
    by (intro conjI) (rule distinct_ServiceMap slow_round slow_late_round 1 2 3)+
qed

section \<open>The error return\<close>

text \<open>
  Claim C4, as amended. \<open>FanOutAndAggregate\<close> has one \<open>return\<close>, with a nil
  error: whenever it returns, for any registry, empty or not, any product id and any
  number of failing or timed-out backends, its error is nil. With the empty registry it
  returns the summary that holds only the product id, and a nil error. A registry whose
  outcomes have the types their keys expect, as the shipped one has, always has a
  schedule that returns.
\<close>

theorem no_fatal_error:
  "(FanOutAndAggregate reg env pid es = Returns sm err \<longrightarrow> err = None)
   \<and> FanOutAndAggregate [] env pid emptySchedule = Returns (initSummary pid) None
   \<and> ((\<forall>r \<in> set (outcomes reg env pid). wellTyped r) \<longrightarrow>
        (\<exists>es' sm'. FanOutAndAggregate reg env pid es' = Returns sm' None))
   \<and> (\<exists>es' sm'. FanOutAndAggregate ServiceMap env pid es' = Returns sm' None)"
proof -
  have c1: "FanOutAndAggregate reg env pid es = Returns sm err \<longrightarrow> err = None"
    by (auto simp: Returns_run)
  have c3: "(\<forall>r \<in> set (outcomes reg env pid). wellTyped r) \<longrightarrow>
        (\<exists>es' sm'. FanOutAndAggregate reg env pid es' = Returns sm' None)"
  proof
    assume wt: "\<forall>r \<in> set (outcomes reg env pid). wellTyped r"
    have "mainPhase (initState reg pid) \<noteq> Panicked" by (simp add: initState_def)
    from completion_Returned [OF roundInv_initState wt this]
    obtain es' s' where "run reg env pid (initState reg pid) es' = Some s'"
      "mainPhase s' = Returned"
      by blast
    then have "FanOutAndAggregate reg env pid es' = Returns (summary s') None"
      by (simp add: Returns_run)
    then show "\<exists>es' sm'. FanOutAndAggregate reg env pid es' = Returns sm' None" by blast
  qed
  show ?thesis
    by (intro conjI) (rule c1 empty_round c3 ServiceMap_returns)+
qed

theorem no_fatal_error_witness:
  "FanOutAndAggregate ServiceMap nominalEnv ''TEST-SKU-TIMEOUT'' nominalSchedule
     = Returns priceTimeoutSummary None
   \<and> list_all wellTyped (outcomes ServiceMap nominalEnv ''TEST-SKU-TIMEOUT'')
   \<and> (\<exists>es' sm'. FanOutAndAggregate ServiceMap nominalEnv ''TEST-SKU-TIMEOUT'' es'
          = Returns sm' None)
   \<and> FanOutAndAggregate [] nominalEnv ''TEST-SKU-TIMEOUT'' emptySchedule
       = Returns (initSummary ''TEST-SKU-TIMEOUT'') None"
proof -
  note t = no_fatal_error [of ServiceMap nominalEnv "''TEST-SKU-TIMEOUT''" nominalSchedule
      priceTimeoutSummary None]
  have w: "\<forall>r \<in> set (outcomes ServiceMap nominalEnv ''TEST-SKU-TIMEOUT''). wellTyped r"
    by (rule ServiceMap_wellTyped)
  from t w have 1: "\<exists>es' sm'. FanOutAndAggregate ServiceMap nominalEnv ''TEST-SKU-TIMEOUT'' es'
          = Returns sm' None"
    by blast
  from t have 2: "FanOutAndAggregate [] nominalEnv ''TEST-SKU-TIMEOUT'' emptySchedule
       = Returns (initSummary ''TEST-SKU-TIMEOUT'') None"
    by blast
  from w have 3: "list_all wellTyped (outcomes ServiceMap nominalEnv ''TEST-SKU-TIMEOUT'')"
    by (simp only: list_all_iff)
  show ?thesis
    by (intro conjI) (rule timeout_round 3 1 2)+
qed

text \<open>
  Claim C4 as stated fails on the empty registry: the claim has the call return a
  non-nil error exactly then, and the call returns a nil error.
\<close>

theorem empty_registry_returns_nil_error:
  "FanOutAndAggregate [] nominalEnv ''SKU-1'' emptySchedule
     = Returns (initSummary ''SKU-1'') None"
  by (simp add: FanOutAndAggregate_def emptySchedule_def initState_def initSummary_def)

end
